theory Spec2Isabelle
  imports Main "HOL-Library.Word" "HOL-Library.Multiset"
begin

section \<open>Data model (server.go, package codec)\<close>

text \<open>
  Go \<^verbatim>\<open>error\<close> values.  \<^verbatim>\<open>io.EOF\<close> and \<^verbatim>\<open>io.ErrUnexpectedEOF\<close> are the two
  sentinel values that \<^verbatim>\<open>readRequestHeader\<close> compares against; every other error is
  represented by its message.
\<close>

datatype error = EOF | ErrUnexpectedEOF | OtherError string

text \<open>\<^verbatim>\<open>err.Error()\<close>\<close>

fun Error_string :: "error \<Rightarrow> string" where
  "Error_string EOF = ''EOF''"
| "Error_string ErrUnexpectedEOF = ''unexpected EOF''"
| "Error_string (OtherError m) = m"

text \<open>\<^verbatim>\<open>codec.Header\<close> (package codec, the file with the \<^verbatim>\<open>Codec\<close> interface).\<close>

record Header =
  ServiceMethod :: string
  Seq :: "64 word"
  Error :: string

type_synonym Type = string

definition GobType :: Type where
  "GobType = ''application/gob''"

definition JsonType :: Type where
  "JsonType = ''application/json''"

definition MagicNumber :: int where
  "MagicNumber = 0x3bef5c"

text \<open>
  \<^verbatim>\<open>type Option struct { MagicNumber int; CodecType codec.Type }\<close>.  The field names
  carry a prefix, since \<^verbatim>\<open>MagicNumber\<close> is the constant as well.
\<close>

record Option =
  opt_MagicNumber :: int
  opt_CodecType :: Type

definition DefaultOption :: Option where
  "DefaultOption = \<lparr>opt_MagicNumber = MagicNumber, opt_CodecType = GobType\<rparr>"

text \<open>
  The \<^verbatim>\<open>body interface{}\<close> argument of \<^verbatim>\<open>sendResponse\<close>: either the placeholder
  \<^verbatim>\<open>invalidRequest = struct{}{}\<close> or the string held by \<^verbatim>\<open>req.replyv\<close>.
\<close>

datatype body = invalidRequest | Reply string

text \<open>
  \<^verbatim>\<open>type request struct { h *codec.Header; argv, replyv reflect.Value }\<close>.
  \<^verbatim>\<open>argv\<close> points to a string; \<^verbatim>\<open>replyv\<close> is the zero \<^verbatim>\<open>reflect.Value\<close> (\<open>None\<close>)
  until \<^verbatim>\<open>handleRequest\<close> assigns it.
\<close>

record request =
  req_h :: Header
  argv :: string
  replyv :: "string option"

section \<open>Observable events\<close>

text \<open>
  Everything the server does to the outside world is recorded, in order, in a trace:
  the lines it logs, the calls of \<^verbatim>\<open>cc.Write\<close> (their start and their return), and the
  two close calls.
\<close>

datatype event =
    LogOptionsError error
  | LogInvalidMagic int
  | LogInvalidCodec Type
  | LogReadHeaderError error
  | LogReadArgvErr error
  | LogWriteError error
  | LogRequest Header string
  | WriteBegin Header body
  | WriteEnd "error option"
  | CodecClose
  | ConnClose

section \<open>The Codec interface\<close>

text \<open>
  \<^verbatim>\<open>codec.Codec\<close> is an interface whose implementations are not part of the sources.
  A codec bound to a connection is therefore a parameter: the frames that successive
  successful \<^verbatim>\<open>ReadHeader\<close> calls will deliver (each with the outcome of the
  \<^verbatim>\<open>ReadBody\<close> that follows it: the string stored in the argument slot and the error
  returned), the error of the first failing \<^verbatim>\<open>ReadHeader\<close>, and the result of every
  \<^verbatim>\<open>Write\<close> call, which may depend on how many writes came before and on what is
  written.  What the peer sends after the first failing header read is never read, so it
  has no place here.  A connection on which no header read ever fails, or on which a call
  of the codec never returns, keeps \<^verbatim>\<open>serveCodec\<close> from returning; such runs are not
  runs of this model.
\<close>

record Codec =
  incoming :: "(Header \<times> string \<times> error option) list"
  read_fail :: error
  cur_body :: "string \<times> error option"
  write_result :: "nat \<Rightarrow> Header \<Rightarrow> body \<Rightarrow> error option"
  nwrites :: nat

definition ReadHeader :: "Codec \<Rightarrow> (error + Header) \<times> Codec" where
  "ReadHeader c =
     (case incoming c of
        [] \<Rightarrow> (Inl (read_fail c), c)
      | (hdr, b) # fs \<Rightarrow> (Inr hdr, c\<lparr>incoming := fs, cur_body := b\<rparr>))"

definition ReadBody :: "Codec \<Rightarrow> (string \<times> error option) \<times> Codec" where
  "ReadBody c = (cur_body c, c)"

definition Write :: "Header \<Rightarrow> body \<Rightarrow> Codec \<Rightarrow> error option \<times> Codec" where
  "Write hdr b c = (write_result c (nwrites c) hdr b, c\<lparr>nwrites := Suc (nwrites c)\<rparr>)"

section \<open>Formatting of the stub reply\<close>

text \<open>\<^verbatim>\<open>fmt.Sprintf("%d", n)\<close> for an unsigned number: its decimal digits.\<close>

definition digit :: "nat \<Rightarrow> char" where
  "digit d = ''0123456789'' ! d"

function decimal :: "nat \<Rightarrow> string" where
  "decimal n = (if n < 10 then [digit n] else decimal (n div 10) @ [digit (n mod 10)])"
  by pat_completeness auto
termination
  by (relation "measure id") auto

text \<open>\<^verbatim>\<open>fmt.Sprintf("geerpc resp %d", req.h.Seq)\<close>\<close>

definition geerpc_resp :: "64 word \<Rightarrow> string" where
  "geerpc_resp sq = ''geerpc resp '' @ decimal (unat sq)"

section \<open>Reading one request\<close>

text \<open>
  \<^verbatim>\<open>readRequestHeader\<close> (server.go, lines 95 to 104) and \<^verbatim>\<open>readRequest\<close> (lines 107 to
  120) are only ever run by the goroutine of \<^verbatim>\<open>serveCodec\<close>; they return their Go
  result, the codec after the reads, and the lines they logged.
\<close>

definition readRequestHeader :: "Codec \<Rightarrow> (Header option \<times> error option) \<times> Codec \<times> event list" where
  "readRequestHeader c =
     (case ReadHeader c of
        (Inl err, c') \<Rightarrow>
          ((None, Some err), c',
           (if err \<noteq> EOF \<and> err \<noteq> ErrUnexpectedEOF then [LogReadHeaderError err] else []))
      | (Inr hdr, c') \<Rightarrow> ((Some hdr, None), c', []))"

text \<open>
  \<^verbatim>\<open>readRequest\<close>.  The second case is the one in which \<^verbatim>\<open>readRequestHeader\<close> would
  return a nil header with a nil error, which it never does.
\<close>

definition readRequest :: "Codec \<Rightarrow> (request option \<times> error option) \<times> Codec \<times> event list" where
  "readRequest c =
     (case readRequestHeader c of
        ((_, Some err), c', lg) \<Rightarrow> ((None, Some err), c', lg)
      | ((None, None), c', lg) \<Rightarrow> ((None, None), c', lg)
      | ((Some hdr, None), c', lg) \<Rightarrow>
          (case ReadBody c' of
             ((a, berr), c'') \<Rightarrow>
               ((Some \<lparr>req_h = hdr, argv = a, replyv = None\<rparr>, None), c'',
                lg @ (case berr of None \<Rightarrow> [] | Some err \<Rightarrow> [LogReadArgvErr err]))))"

section \<open>The goroutines of one connection\<close>

text \<open>
  \<^verbatim>\<open>serveCodec\<close> runs concurrently with the goroutines it starts with
  \<^verbatim>\<open>go server.handleRequest(...)\<close>.  They are modelled as threads that take atomic steps
  in any order: each step is one action on the shared objects (the codec, the mutex
  \<^verbatim>\<open>sending\<close>, the wait group \<^verbatim>\<open>wg\<close>, the log).  A step that would block is not enabled.
\<close>

text \<open>Where a thread stands inside \<^verbatim>\<open>sendResponse\<close>.\<close>

datatype send_pc =
    AtLock
  | AtWrite
  | InWrite
  | AtLogErr error
  | AtUnlock
  | SendReturned

text \<open>Where a goroutine stands inside \<^verbatim>\<open>handleRequest\<close>.\<close>

datatype handler_pc = HLog | HSend send_pc | HDone | HFinished

record task =
  t_req :: request
  t_pc :: handler_pc

text \<open>
  Where \<^verbatim>\<open>serveCodec\<close> stands: at the head of its loop, inside the inline
  \<^verbatim>\<open>sendResponse\<close> of the error branch, at \<^verbatim>\<open>wg.Wait()\<close>, at \<^verbatim>\<open>cc.Close()\<close>, or
  returned.  \<open>MPanic\<close> stands for the nil dereference that starting a handler on a nil
  request would cause.
\<close>

datatype main_pc = MRead | MSend request send_pc | MWait | MClose | MReturned | MPanic

record sstate =
  main :: main_pc
  cc :: Codec
  tasks :: "task list"
  sending :: bool
  wg :: int
  trace :: "event list"

text \<open>
  The state on entry to \<^verbatim>\<open>serveCodec\<close>: a fresh mutex and a fresh wait group.  Go
  panics when the counter of a wait group becomes negative and when an unlocked mutex is
  unlocked; the invariants below show that neither happens.
\<close>

definition serveCodec_init :: "Codec \<Rightarrow> sstate" where
  "serveCodec_init c =
     \<lparr>main = MRead, cc = c, tasks = [], sending = False, wg = 0, trace = []\<rparr>"

text \<open>
  \<^verbatim>\<open>sendResponse\<close> (lines 123 to 129): \<^verbatim>\<open>sending.Lock()\<close> (line 124, enabled only when
  the mutex is free), the call of \<^verbatim>\<open>cc.Write\<close> and its return (line 126), the log line on
  failure (line 127), and the deferred \<^verbatim>\<open>sending.Unlock()\<close> (line 125).
\<close>

definition sendResponse_step ::
  "Header \<Rightarrow> body \<Rightarrow> send_pc \<Rightarrow> sstate \<Rightarrow> (send_pc \<times> sstate) option" where
  "sendResponse_step hdr b p s =
     (case p of
        AtLock \<Rightarrow> if sending s then None else Some (AtWrite, s\<lparr>sending := True\<rparr>)
      | AtWrite \<Rightarrow> Some (InWrite, s\<lparr>trace := trace s @ [WriteBegin hdr b]\<rparr>)
      | InWrite \<Rightarrow>
          (case Write hdr b (cc s) of
             (r, c') \<Rightarrow>
               Some ((case r of None \<Rightarrow> AtUnlock | Some err \<Rightarrow> AtLogErr err),
                     s\<lparr>cc := c', trace := trace s @ [WriteEnd r]\<rparr>))
      | AtLogErr err \<Rightarrow> Some (AtUnlock, s\<lparr>trace := trace s @ [LogWriteError err]\<rparr>)
      | AtUnlock \<Rightarrow> Some (SendReturned, s\<lparr>sending := False\<rparr>)
      | SendReturned \<Rightarrow> None)"

text \<open>
  \<^verbatim>\<open>handleRequest\<close> (lines 132 to 139): log the header and the argument and build the
  reply (lines 136 and 137; both touch only what the goroutine owns, and are one step),
  send the response (line 138), then the deferred \<^verbatim>\<open>wg.Done()\<close> (line 135).  \<^verbatim>\<open>req.replyv.Interface()\<close> on the zero
  \<^verbatim>\<open>reflect.Value\<close> would panic; the handler then has no step.
\<close>

definition handleRequest_step :: "task \<Rightarrow> sstate \<Rightarrow> (task \<times> sstate) option" where
  "handleRequest_step t s =
     (case t_pc t of
        HLog \<Rightarrow>
          Some (t\<lparr>t_req := (t_req t)\<lparr>replyv := Some (geerpc_resp (Seq (req_h (t_req t))))\<rparr>,
                  t_pc := HSend AtLock\<rparr>,
                s\<lparr>trace := trace s @ [LogRequest (req_h (t_req t)) (argv (t_req t))]\<rparr>)
      | HSend p \<Rightarrow>
          (case replyv (t_req t) of
             None \<Rightarrow> None
           | Some rv \<Rightarrow>
               (case sendResponse_step (req_h (t_req t)) (Reply rv) p s of
                  None \<Rightarrow> None
                | Some (p', s') \<Rightarrow>
                    Some (t\<lparr>t_pc := (if p' = SendReturned then HDone else HSend p')\<rparr>, s')))
      | HDone \<Rightarrow> Some (t\<lparr>t_pc := HFinished\<rparr>, s\<lparr>wg := wg s - 1\<rparr>)
      | HFinished \<Rightarrow> None)"

text \<open>
  \<^verbatim>\<open>serveCodec\<close> (lines 68 to 86): one round of the loop reads a request (line 72) and
  either leaves the loop (line 75), starts the inline error response (lines 77 to 79), or
  adds one to the wait group and starts a handler (lines 81 and 82); after the loop,
  \<^verbatim>\<open>wg.Wait()\<close> (line 84, enabled only when the counter is zero) and \<^verbatim>\<open>cc.Close()\<close>
  (line 85).  A round of the loop up to the start of the handler is one step: it logs at
  most one line, and only this goroutine reads from the codec or adds to the wait group.
\<close>

definition serveCodec_step :: "sstate \<Rightarrow> sstate option" where
  "serveCodec_step s =
     (case main s of
        MRead \<Rightarrow>
          (case readRequest (cc s) of
             ((req, err), c', lg) \<Rightarrow>
               (let s' = s\<lparr>cc := c', trace := trace s @ lg\<rparr> in
                case err of
                  Some e \<Rightarrow>
                    (case req of
                       None \<Rightarrow> Some (s'\<lparr>main := MWait\<rparr>)
                     | Some r \<Rightarrow>
                         Some (s'\<lparr>main :=
                           MSend (r\<lparr>req_h := (req_h r)\<lparr>Error := Error_string e\<rparr>\<rparr>) AtLock\<rparr>))
                | None \<Rightarrow>
                    (case req of
                       None \<Rightarrow> Some (s'\<lparr>main := MPanic\<rparr>)
                     | Some r \<Rightarrow>
                         Some (s'\<lparr>wg := wg s' + 1,
                                  tasks := tasks s' @ [\<lparr>t_req = r, t_pc = HLog\<rparr>]\<rparr>))))
      | MSend r p \<Rightarrow>
          (case sendResponse_step (req_h r) invalidRequest p s of
             None \<Rightarrow> None
           | Some (p', s') \<Rightarrow>
               Some (s'\<lparr>main := (if p' = SendReturned then MRead else MSend r p')\<rparr>))
      | MWait \<Rightarrow> if wg s = 0 then Some (s\<lparr>main := MClose\<rparr>) else None
      | MClose \<Rightarrow> Some (s\<lparr>main := MReturned, trace := trace s @ [CodecClose]\<rparr>)
      | MReturned \<Rightarrow> None
      | MPanic \<Rightarrow> None)"

text \<open>Thread identifiers: the goroutine of \<^verbatim>\<open>serveCodec\<close> and the handlers it started.\<close>

datatype tid = Main | Task nat

fun step :: "tid \<Rightarrow> sstate \<Rightarrow> sstate option" where
  "step Main s = serveCodec_step s"
| "step (Task i) s =
     (if i < length (tasks s) then
        (case handleRequest_step (tasks s ! i) s of
           None \<Rightarrow> None
         | Some (t', s') \<Rightarrow> Some (s'\<lparr>tasks := (tasks s')[i := t']\<rparr>))
      else None)"

text \<open>
  An execution follows a schedule, the list of the threads that step, in order; it is
  \<open>None\<close> when the schedule names a thread that cannot step at that point.  Quantifying
  over all schedules covers every interleaving of the goroutines.
\<close>

fun exec :: "tid list \<Rightarrow> sstate \<Rightarrow> sstate option" where
  "exec [] s = Some s"
| "exec (t # ts) s = (case step t s of None \<Rightarrow> None | Some s' \<Rightarrow> exec ts s')"

section \<open>ServeConn\<close>

text \<open>
  The connection is an \<^verbatim>\<open>io.ReadWriteCloser\<close>; what \<^verbatim>\<open>json.NewDecoder(conn).Decode(&opt)\<close>
  (line 48) does on it and the table \<^verbatim>\<open>codec.NewCodecFuncMap\<close> are parameters.  The
  decoder has two effects: the result of \<^verbatim>\<open>Decode\<close> (\<open>json_Decode\<close>), and what it takes
  from the connection (\<open>after_Decode\<close> is the connection as the decoder leaves it).  The
  decoder reads the connection through a buffer of its own, which \<^verbatim>\<open>ServeConn\<close> drops
  with the decoder: whatever the buffer has taken beyond the option record is gone from
  the connection that the codec is then built on (line 61).  A lookup in the table that
  yields the nil function is \<open>None\<close>.
\<close>

record 'conn env =
  json_Decode :: "'conn \<Rightarrow> error + Option"
  after_Decode :: "'conn \<Rightarrow> 'conn"
  NewCodecFuncMap :: "Type \<rightharpoonup> ('conn \<Rightarrow> Codec)"

text \<open>\<^verbatim>\<open>func init()\<close> of package codec registers the gob constructor only.\<close>

definition init_NewCodecFuncMap :: "('conn \<Rightarrow> Codec) \<Rightarrow> (Type \<rightharpoonup> ('conn \<Rightarrow> Codec))" where
  "init_NewCodecFuncMap NewGobCodec = Map.empty(GobType \<mapsto> NewGobCodec)"

text \<open>
  The body of \<^verbatim>\<open>ServeConn\<close> up to the call of \<^verbatim>\<open>serveCodec\<close> (lines 47 to 61): the
  lines logged, and the codec \<^verbatim>\<open>f(conn)\<close> when the handshake succeeds, built on the
  connection as the decoder of line 48 has left it.
\<close>

definition ServeConn_handshake :: "'conn env \<Rightarrow> 'conn \<Rightarrow> event list \<times> Codec option" where
  "ServeConn_handshake e conn =
     (case json_Decode e conn of
        Inl err \<Rightarrow> ([LogOptionsError err], None)
      | Inr opt \<Rightarrow>
          if opt_MagicNumber opt \<noteq> MagicNumber then
            ([LogInvalidMagic (opt_MagicNumber opt)], None)
          else
            (case NewCodecFuncMap e (opt_CodecType opt) of
               None \<Rightarrow> ([LogInvalidCodec (opt_CodecType opt)], None)
             | Some f \<Rightarrow> ([], Some (f (after_Decode e conn)))))"

text \<open>\<^verbatim>\<open>defer func() { _ = conn.Close() }()\<close> (line 46): whatever the body did, the
  connection is closed when it returns.\<close>

definition defer_conn_Close :: "event list option \<Rightarrow> event list option" where
  "defer_conn_Close r = (case r of None \<Rightarrow> None | Some tr \<Rightarrow> Some (tr @ [ConnClose]))"

text \<open>
  \<^verbatim>\<open>ServeConn\<close> under a schedule for the goroutines of \<^verbatim>\<open>serveCodec\<close>: the trace of
  the whole call when it returns, \<open>None\<close> when the schedule does not run
  \<^verbatim>\<open>serveCodec\<close> to its return.
\<close>

definition ServeConn :: "'conn env \<Rightarrow> 'conn \<Rightarrow> tid list \<Rightarrow> event list option" where
  "ServeConn e conn sched =
     defer_conn_Close
       (case ServeConn_handshake e conn of
          (lg, None) \<Rightarrow> Some lg
        | (lg, Some c) \<Rightarrow>
            (case exec sched (serveCodec_init c) of
               None \<Rightarrow> None
             | Some s \<Rightarrow> if main s = MReturned then Some (lg @ trace s) else None))"

section \<open>What a trace shows\<close>

text \<open>The \<^verbatim>\<open>(header, body)\<close> pairs handed to \<^verbatim>\<open>cc.Write\<close>, in the order of the calls.\<close>

fun responses :: "event list \<Rightarrow> (Header \<times> body) list" where
  "responses [] = []"
| "responses (WriteBegin hdr b # es) = (hdr, b) # responses es"
| "responses (e # es) = responses es"

text \<open>The \<^verbatim>\<open>Error\<close> fields of the response headers.\<close>

definition response_errors :: "event list \<Rightarrow> string list" where
  "response_errors tr = map (\<lambda>r. Error (fst r)) (responses tr)"

text \<open>The errors returned by \<^verbatim>\<open>cc.Write\<close>, and the errors logged for failed writes.\<close>

fun failed_writes :: "event list \<Rightarrow> error list" where
  "failed_writes [] = []"
| "failed_writes (WriteEnd (Some err) # es) = err # failed_writes es"
| "failed_writes (e # es) = failed_writes es"

fun logged_write_errors :: "event list \<Rightarrow> error list" where
  "logged_write_errors [] = []"
| "logged_write_errors (LogWriteError err # es) = err # logged_write_errors es"
| "logged_write_errors (e # es) = logged_write_errors es"

text \<open>The errors logged by \<^verbatim>\<open>readRequestHeader\<close>.\<close>

fun logged_header_errors :: "event list \<Rightarrow> error list" where
  "logged_header_errors [] = []"
| "logged_header_errors (LogReadHeaderError err # es) = err # logged_header_errors es"
| "logged_header_errors (e # es) = logged_header_errors es"

text \<open>
  Whether the calls of \<^verbatim>\<open>cc.Write\<close> in a trace are well nested: \<open>write_calls w tr\<close>
  scans \<open>tr\<close> starting with a call in progress or not (\<open>w\<close>); it is \<open>None\<close> when a call
  starts while another is in progress or a call returns while none is, and otherwise
  tells whether a call is in progress at the end.
\<close>

fun write_calls :: "bool \<Rightarrow> event list \<Rightarrow> bool option" where
  "write_calls w [] = Some w"
| "write_calls w (WriteBegin hdr b # es) = (if w then None else write_calls True es)"
| "write_calls w (WriteEnd r # es) = (if w then write_calls False es else None)"
| "write_calls w (e # es) = write_calls w es"

text \<open>The events that follow the first \<^verbatim>\<open>cc.Close()\<close>.\<close>

fun after_close :: "event list \<Rightarrow> event list" where
  "after_close [] = []"
| "after_close (e # es) = (if e = CodecClose then es else after_close es)"

text \<open>The response that answers a frame: its header as read, and the stub reply.\<close>

definition expected :: "Header \<times> string \<times> error option \<Rightarrow> Header \<times> body" where
  "expected f = (fst f, Reply (geerpc_resp (Seq (fst f))))"

definition eof_class :: "error \<Rightarrow> bool" where
  "eof_class err = (err = EOF \<or> err = ErrUnexpectedEOF)"

section \<open>Invariants of the reachable states\<close>

text \<open>\<^verbatim>\<open>serveCodec\<close> is neither in its error branch nor crashed.\<close>

definition live_main :: "sstate \<Rightarrow> bool" where
  "live_main s = (case main s of MSend r p \<Rightarrow> False | MPanic \<Rightarrow> False | _ \<Rightarrow> True)"

text \<open>
  The positions of \<^verbatim>\<open>sendResponse\<close> between the return of \<^verbatim>\<open>sending.Lock()\<close> and
  the return of \<^verbatim>\<open>sending.Unlock()\<close>; they include the whole call of \<^verbatim>\<open>cc.Write\<close>.
\<close>

fun crit :: "send_pc \<Rightarrow> bool" where
  "crit AtLock = False"
| "crit SendReturned = False"
| "crit p = True"

definition holds_mutex :: "task \<Rightarrow> bool" where
  "holds_mutex t = (case t_pc t of HSend p \<Rightarrow> crit p | _ \<Rightarrow> False)"

definition task_holds :: "task \<Rightarrow> int" where
  "task_holds t = (if holds_mutex t then 1 else 0)"

definition unfinished :: "task \<Rightarrow> int" where
  "unfinished t = (if t_pc t = HFinished then 0 else 1)"

definition in_write :: "task \<Rightarrow> int" where
  "in_write t = (if t_pc t = HSend InWrite then 1 else 0)"

text \<open>A handler that has passed its first statement holds its reply.\<close>

definition task_ok :: "task \<Rightarrow> bool" where
  "task_ok t =
     (case t_pc t of
        HSend p \<Rightarrow> p \<noteq> SendReturned \<and> replyv (t_req t) = Some (geerpc_resp (Seq (req_h (t_req t))))
      | _ \<Rightarrow> True)"

text \<open>The response a handler has still to hand to \<^verbatim>\<open>cc.Write\<close>, and the write error
  it has still to log.\<close>

definition to_write :: "task \<Rightarrow> (Header \<times> body) multiset" where
  "to_write t =
     (if t_pc t = HLog \<or> t_pc t = HSend AtLock \<or> t_pc t = HSend AtWrite
      then {#(req_h (t_req t), Reply (geerpc_resp (Seq (req_h (t_req t)))))#} else {#})"

definition to_log :: "task \<Rightarrow> error multiset" where
  "to_log t = (case t_pc t of HSend (AtLogErr err) \<Rightarrow> {#err#} | _ \<Rightarrow> {#})"

text \<open>The mutex is locked exactly when one handler is between Lock and Unlock.\<close>

definition lock_inv :: "sstate \<Rightarrow> bool" where
  "lock_inv s = (sum_list (map task_holds (tasks s)) = (if sending s then 1 else 0))"

text \<open>The wait group counts the handlers that have not finished; it is zero once
  \<^verbatim>\<open>wg.Wait()\<close> has returned.\<close>

definition wg_inv :: "sstate \<Rightarrow> bool" where
  "wg_inv s = (wg s = sum_list (map unfinished (tasks s)) \<and>
               (main s = MClose \<or> main s = MReturned \<longrightarrow> wg s = 0))"

text \<open>Every frame of the codec \<open>c\<close> that \<^verbatim>\<open>serveCodec\<close> started with is still to be
  read, or its response is still to be written, or its response has been written.\<close>

definition resp_inv :: "Codec \<Rightarrow> sstate \<Rightarrow> bool" where
  "resp_inv c s =
     (mset (responses (trace s)) + sum_list (map to_write (tasks s))
        + mset (map expected (incoming (cc s))) = mset (map expected (incoming c)))"

definition werr_inv :: "sstate \<Rightarrow> bool" where
  "werr_inv s =
     (mset (failed_writes (trace s)) =
      mset (logged_write_errors (trace s)) + sum_list (map to_log (tasks s)))"

definition codec_inv :: "Codec \<Rightarrow> sstate \<Rightarrow> bool" where
  "codec_inv c s =
     (read_fail (cc s) = read_fail c \<and> write_result (cc s) = write_result c \<and>
      (main s = MRead \<or> incoming (cc s) = []) \<and>
      logged_header_errors (trace s) =
        (if main s \<noteq> MRead \<and> \<not> eof_class (read_fail c) then [read_fail c] else []))"

definition close_inv :: "sstate \<Rightarrow> bool" where
  "close_inv s =
     (ConnClose \<notin> set (trace s) \<and>
      (if main s = MReturned
       then trace s \<noteq> [] \<and> last (trace s) = CodecClose \<and> CodecClose \<notin> set (butlast (trace s))
       else CodecClose \<notin> set (trace s)))"

text \<open>Every error that a write returned is one that the codec \<open>c\<close> can return.\<close>

definition fail_inv :: "Codec \<Rightarrow> sstate \<Rightarrow> bool" where
  "fail_inv c s =
     (write_result (cc s) = write_result c \<and>
      (\<forall>err \<in> set (failed_writes (trace s)). \<exists>n hdr b. write_result c n hdr b = Some err))"

definition calls_inv :: "sstate \<Rightarrow> bool" where
  "calls_inv s =
     (write_calls False (trace s) = Some (sum_list (map in_write (tasks s)) = 1))"

text \<open>The handlers started so far are, in order, one for each frame read so far; none is
  ever dropped.\<close>

definition spawn_inv :: "Codec \<Rightarrow> sstate \<Rightarrow> bool" where
  "spawn_inv c s =
     (map (\<lambda>t. req_h (t_req t)) (tasks s) @ map fst (incoming (cc s)) = map fst (incoming c))"

definition reach_inv :: "Codec \<Rightarrow> sstate \<Rightarrow> bool" where
  "reach_inv c s =
     (live_main s \<and> list_all task_ok (tasks s) \<and> lock_inv s \<and> wg_inv s \<and>
      resp_inv c s \<and> werr_inv s \<and> codec_inv c s \<and> close_inv s \<and> calls_inv s \<and>
      fail_inv c s \<and> spawn_inv c s)"

text \<open>A bound on the number of steps that are left: every step lowers it.\<close>

fun send_rank :: "send_pc \<Rightarrow> int" where
  "send_rank AtLock = 5"
| "send_rank AtWrite = 4"
| "send_rank InWrite = 3"
| "send_rank (AtLogErr err) = 2"
| "send_rank AtUnlock = 1"
| "send_rank SendReturned = 0"

fun handler_rank :: "handler_pc \<Rightarrow> int" where
  "handler_rank HLog = 8"
| "handler_rank (HSend p) = 2 + send_rank p"
| "handler_rank HDone = 1"
| "handler_rank HFinished = 0"

fun main_rank :: "main_pc \<Rightarrow> int" where
  "main_rank MRead = 3"
| "main_rank (MSend r p) = 3 + send_rank p"
| "main_rank MWait = 2"
| "main_rank MClose = 1"
| "main_rank MReturned = 0"
| "main_rank MPanic = 0"

definition rank :: "sstate \<Rightarrow> int" where
  "rank s = 10 * int (length (incoming (cc s))) + main_rank (main s)
            + sum_list (map (\<lambda>t. handler_rank (t_pc t)) (tasks s))"

text \<open>Reading a decimal numeral back.\<close>

definition undecimal :: "string \<Rightarrow> nat" where
  "undecimal cs = foldl (\<lambda>a ch. 10 * a + (of_char ch - 48)) 0 cs"

section \<open>Example connections\<close>

definition writes_succeed :: "nat \<Rightarrow> Header \<Rightarrow> body \<Rightarrow> error option" where
  "writes_succeed n hdr b = None"


text \<open>The two requests of the example in the specification, then end of stream.\<close>

definition two_requests :: "(nat \<Rightarrow> Header \<Rightarrow> body \<Rightarrow> error option) \<Rightarrow> Codec" where
  "two_requests wr =
     \<lparr>incoming = [(\<lparr>ServiceMethod = ''Foo.Bar'', Seq = 1, Error = ''''\<rparr>, ''x'', None),
                  (\<lparr>ServiceMethod = ''Foo.Bar'', Seq = 2, Error = ''''\<rparr>, ''y'', None)],
      read_fail = EOF, cur_body = ('''', None), write_result = wr, nwrites = 0\<rparr>"

text \<open>A schedule for two requests in which the second handler writes first and the
  first handler waits for the mutex meanwhile.\<close>

definition interleaved :: "tid list" where
  "interleaved =
     [Main, Task 0, Main, Task 1, Task 1, Task 1, Main, Task 1, Task 1, Task 0, Task 1,
      Task 0, Task 0, Task 0, Task 0, Main, Main]"


text \<open>One frame, with the outcome of its body read and the error that ends the stream.\<close>

definition one_request :: "Header \<Rightarrow> string \<Rightarrow> error option \<Rightarrow> error \<Rightarrow> Codec" where
  "one_request hdr a berr herr =
     \<lparr>incoming = [(hdr, a, berr)], read_fail = herr, cur_body = ('''', None),
      write_result = writes_succeed, nwrites = 0\<rparr>"

definition run_one :: "tid list" where
  "run_one = [Main, Main, Task 0, Task 0, Task 0, Task 0, Task 0, Task 0, Main, Main]"

text \<open>A stream that ends at once with the given error.\<close>

definition no_request :: "error \<Rightarrow> Codec" where
  "no_request herr =
     \<lparr>incoming = [], read_fail = herr, cur_body = ('''', None),
      write_result = writes_succeed, nwrites = 0\<rparr>"

text \<open>An environment in which decoding the option record yields \<open>d\<close> and the table is
  the one \<^verbatim>\<open>init\<close> builds, with a gob constructor that yields the codec \<open>c\<close>.\<close>

definition test_env :: "error + Option \<Rightarrow> Codec \<Rightarrow> unit env" where
  "test_env d c = \<lparr>json_Decode = (\<lambda>u. d), after_Decode = (\<lambda>u. u),
                  NewCodecFuncMap = init_NewCodecFuncMap (\<lambda>u. c)\<rparr>"

text \<open>
  A connection given by the request frames that the peer has sent behind a valid option
  record before closing its side.  The decoder of the option record takes the first \<open>k\<close>
  of them into its buffer; the gob codec built on the connection delivers the frames that
  are left and then meets the end of the stream.
\<close>

definition stream_codec :: "(Header \<times> string \<times> error option) list \<Rightarrow> Codec" where
  "stream_codec fs =
     \<lparr>incoming = fs, read_fail = EOF, cur_body = ('''', None),
      write_result = writes_succeed, nwrites = 0\<rparr>"

definition read_ahead_env :: "nat \<Rightarrow> (Header \<times> string \<times> error option) list env" where
  "read_ahead_env k =
     \<lparr>json_Decode = (\<lambda>sent. Inr DefaultOption), after_Decode = drop k,
      NewCodecFuncMap = init_NewCodecFuncMap stream_codec\<rparr>"

text \<open>The two requests of the specification's example, as sent on such a connection.\<close>

definition sent_two :: "(Header \<times> string \<times> error option) list" where
  "sent_two =
     [(\<lparr>ServiceMethod = ''Foo.Bar'', Seq = 1, Error = ''''\<rparr>, ''x'', None),
      (\<lparr>ServiceMethod = ''Foo.Bar'', Seq = 2, Error = ''''\<rparr>, ''y'', None)]"

text \<open>One request is read and its handler logs it; then the header read fails while
  that handler is in flight; the handler writes its response; then the join and the
  close.\<close>

definition in_flight :: "tid list" where
  "in_flight = [Main, Task 0, Main, Task 0, Task 0, Task 0, Task 0, Task 0, Main, Main]"

text \<open>What \<^verbatim>\<open>serveCodec\<close> does on the two requests under the schedule \<open>interleaved\<close>.\<close>

definition two_requests_trace :: "event list" where
  "two_requests_trace =
     [LogRequest \<lparr>ServiceMethod = ''Foo.Bar'', Seq = 1, Error = ''''\<rparr> ''x'',
      LogRequest \<lparr>ServiceMethod = ''Foo.Bar'', Seq = 2, Error = ''''\<rparr> ''y'',
      WriteBegin \<lparr>ServiceMethod = ''Foo.Bar'', Seq = 2, Error = ''''\<rparr> (Reply ''geerpc resp 2''),
      WriteEnd None,
      WriteBegin \<lparr>ServiceMethod = ''Foo.Bar'', Seq = 1, Error = ''''\<rparr> (Reply ''geerpc resp 1''),
      WriteEnd None,
      CodecClose]"

text \<open>The trace after a schedule, from the entry to \<^verbatim>\<open>serveCodec\<close>.\<close>

definition serveCodec_trace :: "tid list \<Rightarrow> Codec \<Rightarrow> event list option" where
  "serveCodec_trace sched c = map_option trace (exec sched (serveCodec_init c))"

section \<open>The steps, case by case\<close>

lemma readRequest_Nil:
  "incoming c = [] \<Longrightarrow>
   readRequest c = ((None, Some (read_fail c)), c,
     (if read_fail c \<noteq> EOF \<and> read_fail c \<noteq> ErrUnexpectedEOF
      then [LogReadHeaderError (read_fail c)] else []))"
  by (simp add: readRequest_def readRequestHeader_def ReadHeader_def)

lemma readRequest_Cons:
  "incoming c = (hdr, a, be) # fs \<Longrightarrow>
   readRequest c = ((Some \<lparr>req_h = hdr, argv = a, replyv = None\<rparr>, None),
     c\<lparr>incoming := fs, cur_body := (a, be)\<rparr>,
     (case be of None \<Rightarrow> [] | Some err \<Rightarrow> [LogReadArgvErr err]))"
  by (simp add: readRequest_def readRequestHeader_def ReadHeader_def ReadBody_def)

lemma serveCodec_step_MRead_Nil:
  "main s = MRead \<Longrightarrow> incoming (cc s) = [] \<Longrightarrow>
   serveCodec_step s = Some (s\<lparr>main := MWait, trace := trace s @
     (if read_fail (cc s) \<noteq> EOF \<and> read_fail (cc s) \<noteq> ErrUnexpectedEOF
      then [LogReadHeaderError (read_fail (cc s))] else [])\<rparr>)"
  by (simp add: serveCodec_step_def readRequest_Nil)

lemma serveCodec_step_MRead_Cons:
  "main s = MRead \<Longrightarrow> incoming (cc s) = (hdr, a, be) # fs \<Longrightarrow>
   serveCodec_step s = Some (s\<lparr>cc := (cc s)\<lparr>incoming := fs, cur_body := (a, be)\<rparr>,
     trace := trace s @ (case be of None \<Rightarrow> [] | Some err \<Rightarrow> [LogReadArgvErr err]),
     wg := wg s + 1,
     tasks := tasks s @ [\<lparr>t_req = \<lparr>req_h = hdr, argv = a, replyv = None\<rparr>, t_pc = HLog\<rparr>]\<rparr>)"
  by (simp add: serveCodec_step_def readRequest_Cons)

lemma sendResponse_step_cases [consumes 1, case_names Lock Begin EndOk EndErr Log Unlock]:
  assumes "sendResponse_step hdr b p s = Some (p', s')"
  obtains
    (Lock) "p = AtLock" "\<not> sending s" "p' = AtWrite" "s' = s\<lparr>sending := True\<rparr>"
  | (Begin) "p = AtWrite" "p' = InWrite" "s' = s\<lparr>trace := trace s @ [WriteBegin hdr b]\<rparr>"
  | (EndOk) "p = InWrite" "p' = AtUnlock" "write_result (cc s) (nwrites (cc s)) hdr b = None"
      "s' = s\<lparr>cc := (cc s)\<lparr>nwrites := Suc (nwrites (cc s))\<rparr>, trace := trace s @ [WriteEnd None]\<rparr>"
  | (EndErr) err where "p = InWrite" "p' = AtLogErr err"
      "write_result (cc s) (nwrites (cc s)) hdr b = Some err"
      "s' = s\<lparr>cc := (cc s)\<lparr>nwrites := Suc (nwrites (cc s))\<rparr>, trace := trace s @ [WriteEnd (Some err)]\<rparr>"
  | (Log) err where "p = AtLogErr err" "p' = AtUnlock"
      "s' = s\<lparr>trace := trace s @ [LogWriteError err]\<rparr>"
  | (Unlock) "p = AtUnlock" "p' = SendReturned" "s' = s\<lparr>sending := False\<rparr>"
  using assms
  by (cases p; cases "write_result (cc s) (nwrites (cc s)) hdr b")
     (auto simp: sendResponse_step_def Write_def split: if_splits)

lemma step_cases [consumes 2, case_names Break Spawn Wait Close TLog TLock TBegin TEndOk TEndErr TLogErr TUnlock TDone]:
  assumes "step t s = Some s'" and "live_main s"
  obtains
    (Break) "t = Main" "main s = MRead" "incoming (cc s) = []"
      "s' = s\<lparr>main := MWait, trace := trace s @
         (if read_fail (cc s) \<noteq> EOF \<and> read_fail (cc s) \<noteq> ErrUnexpectedEOF
          then [LogReadHeaderError (read_fail (cc s))] else [])\<rparr>"
  | (Spawn) hdr a be fs where "t = Main" "main s = MRead" "incoming (cc s) = (hdr, a, be) # fs"
      "s' = s\<lparr>cc := (cc s)\<lparr>incoming := fs, cur_body := (a, be)\<rparr>,
         trace := trace s @ (case be of None \<Rightarrow> [] | Some err \<Rightarrow> [LogReadArgvErr err]),
         wg := wg s + 1,
         tasks := tasks s @ [\<lparr>t_req = \<lparr>req_h = hdr, argv = a, replyv = None\<rparr>, t_pc = HLog\<rparr>]\<rparr>"
  | (Wait) "t = Main" "main s = MWait" "wg s = 0" "s' = s\<lparr>main := MClose\<rparr>"
  | (Close) "t = Main" "main s = MClose" "s' = s\<lparr>main := MReturned, trace := trace s @ [CodecClose]\<rparr>"
  | (TLog) i where "t = Task i" "i < length (tasks s)" "t_pc (tasks s ! i) = HLog"
      "s' = s\<lparr>trace := trace s @ [LogRequest (req_h (t_req (tasks s ! i))) (argv (t_req (tasks s ! i)))],
         tasks := (tasks s)[i := (tasks s ! i)\<lparr>t_req := (t_req (tasks s ! i))\<lparr>replyv :=
             Some (geerpc_resp (Seq (req_h (t_req (tasks s ! i)))))\<rparr>, t_pc := HSend AtLock\<rparr>]\<rparr>"
  | (TLock) i where "t = Task i" "i < length (tasks s)" "t_pc (tasks s ! i) = HSend AtLock"
      "\<not> sending s"
      "s' = s\<lparr>sending := True, tasks := (tasks s)[i := (tasks s ! i)\<lparr>t_pc := HSend AtWrite\<rparr>]\<rparr>"
  | (TBegin) i rv where "t = Task i" "i < length (tasks s)" "t_pc (tasks s ! i) = HSend AtWrite"
      "replyv (t_req (tasks s ! i)) = Some rv"
      "s' = s\<lparr>trace := trace s @ [WriteBegin (req_h (t_req (tasks s ! i))) (Reply rv)],
         tasks := (tasks s)[i := (tasks s ! i)\<lparr>t_pc := HSend InWrite\<rparr>]\<rparr>"
  | (TEndOk) i rv where "t = Task i" "i < length (tasks s)" "t_pc (tasks s ! i) = HSend InWrite"
      "replyv (t_req (tasks s ! i)) = Some rv"
      "write_result (cc s) (nwrites (cc s)) (req_h (t_req (tasks s ! i))) (Reply rv) = None"
      "s' = s\<lparr>cc := (cc s)\<lparr>nwrites := Suc (nwrites (cc s))\<rparr>,
         trace := trace s @ [WriteEnd None],
         tasks := (tasks s)[i := (tasks s ! i)\<lparr>t_pc := HSend AtUnlock\<rparr>]\<rparr>"
  | (TEndErr) i rv err where "t = Task i" "i < length (tasks s)" "t_pc (tasks s ! i) = HSend InWrite"
      "replyv (t_req (tasks s ! i)) = Some rv"
      "write_result (cc s) (nwrites (cc s)) (req_h (t_req (tasks s ! i))) (Reply rv) = Some err"
      "s' = s\<lparr>cc := (cc s)\<lparr>nwrites := Suc (nwrites (cc s))\<rparr>,
         trace := trace s @ [WriteEnd (Some err)],
         tasks := (tasks s)[i := (tasks s ! i)\<lparr>t_pc := HSend (AtLogErr err)\<rparr>]\<rparr>"
  | (TLogErr) i err where "t = Task i" "i < length (tasks s)" "t_pc (tasks s ! i) = HSend (AtLogErr err)"
      "s' = s\<lparr>trace := trace s @ [LogWriteError err],
         tasks := (tasks s)[i := (tasks s ! i)\<lparr>t_pc := HSend AtUnlock\<rparr>]\<rparr>"
  | (TUnlock) i where "t = Task i" "i < length (tasks s)" "t_pc (tasks s ! i) = HSend AtUnlock"
      "s' = s\<lparr>sending := False, tasks := (tasks s)[i := (tasks s ! i)\<lparr>t_pc := HDone\<rparr>]\<rparr>"
  | (TDone) i where "t = Task i" "i < length (tasks s)" "t_pc (tasks s ! i) = HDone"
      "s' = s\<lparr>wg := wg s - 1, tasks := (tasks s)[i := (tasks s ! i)\<lparr>t_pc := HFinished\<rparr>]\<rparr>"
proof (cases t)
  case Main
  with assms have st: "serveCodec_step s = Some s'" by simp
  show ?thesis
  proof (cases "main s")
    case MRead
    show ?thesis
    proof (cases "incoming (cc s)")
      case Nil
      with st MRead Main show ?thesis
        by (intro Break) (simp_all add: serveCodec_step_MRead_Nil)
    next
      case (Cons f fs)
      obtain hdr a be where f: "f = (hdr, a, be)" by (cases f)
      with st MRead Main Cons show ?thesis
        by (intro Spawn[of hdr a be fs]) (simp_all add: serveCodec_step_MRead_Cons)
    qed
  next
    case (MSend r p)
    with assms(2) show ?thesis by (simp add: live_main_def)
  next
    case MWait
    with st Main show ?thesis
      by (intro Wait) (simp_all add: serveCodec_step_def split: if_splits)
  next
    case MClose
    with st Main show ?thesis
      by (intro Close) (auto simp add: serveCodec_step_def)
  next
    case MReturned
    with st show ?thesis by (simp add: serveCodec_step_def)
  next
    case MPanic
    with st show ?thesis by (simp add: serveCodec_step_def)
  qed
next
  case (Task i)
  with assms have len: "i < length (tasks s)" by (simp split: if_splits)
  let ?t = "tasks s ! i"
  from assms Task len obtain t' s'' where
    h: "handleRequest_step ?t s = Some (t', s'')" and s': "s' = s''\<lparr>tasks := (tasks s'')[i := t']\<rparr>"
    by (auto split: option.splits)
  show ?thesis
  proof (cases "t_pc ?t")
    case HLog
    with h s' Task len show ?thesis
      by (intro TLog[of i]) (auto simp: handleRequest_step_def)
  next
    case (HSend p)
    with h obtain rv p' where rv: "replyv (t_req ?t) = Some rv"
      and sr: "sendResponse_step (req_h (t_req ?t)) (Reply rv) p s = Some (p', s'')"
      and t': "t' = ?t\<lparr>t_pc := (if p' = SendReturned then HDone else HSend p')\<rparr>"
      by (auto simp: handleRequest_step_def split: option.splits)
    from sr show ?thesis
    proof (cases rule: sendResponse_step_cases)
      case Lock
      with HSend t' s' Task len show ?thesis by (intro TLock[of i]) auto
    next
      case Begin
      with HSend t' s' Task len rv show ?thesis by (intro TBegin[of i rv]) auto
    next
      case EndOk
      with HSend t' s' Task len rv show ?thesis by (intro TEndOk[of i rv]) auto
    next
      case (EndErr err)
      with HSend t' s' Task len rv show ?thesis by (intro TEndErr[of i rv err]) auto
    next
      case (Log err)
      with HSend t' s' Task len show ?thesis by (intro TLogErr[of i err]) auto
    next
      case Unlock
      with HSend t' s' Task len show ?thesis by (intro TUnlock[of i]) auto
    qed
  next
    case HDone
    with h s' Task len show ?thesis
      by (intro TDone[of i]) (auto simp: handleRequest_step_def)
  next
    case HFinished
    with h show ?thesis by (simp add: handleRequest_step_def)
  qed
qed

section \<open>Sums over the list of handlers\<close>

lemma sum_list_map_update:
  fixes f :: "'a \<Rightarrow> 'b::ab_group_add"
  shows "i < length xs \<Longrightarrow> sum_list (map f (xs[i := y])) = sum_list (map f xs) - f (xs ! i) + f y"
proof (induction xs arbitrary: i)
  case Nil
  then show ?case by simp
next
  case (Cons x xs)
  then show ?case by (cases i) (simp_all add: algebra_simps)
qed

lemma sum_list_map_update_add:
  fixes f :: "'a \<Rightarrow> 'b::comm_monoid_add"
  shows "i < length xs \<Longrightarrow> sum_list (map f (xs[i := y])) + f (xs ! i) = sum_list (map f xs) + f y"
proof (induction xs arbitrary: i)
  case Nil
  then show ?case by simp
next
  case (Cons x xs)
  show ?case
  proof (cases i)
    case 0
    then show ?thesis by (simp add: ac_simps)
  next
    case (Suc j)
    with Cons.prems have "j < length xs" by simp
    from Cons.IH[OF this] Suc show ?thesis
      by (simp add: add.assoc)
  qed
qed

lemma sum_list_map_update_same:
  fixes f :: "'a \<Rightarrow> 'b::comm_monoid_add"
  shows "i < length xs \<Longrightarrow> f y = f (xs ! i) \<Longrightarrow> sum_list (map f (xs[i := y])) = sum_list (map f xs)"
  by (induction xs arbitrary: i) (auto simp: nth_Cons split: nat.splits)

section \<open>The invariants are kept by every step\<close>

lemma live_main_step: "live_main s \<Longrightarrow> step t s = Some s' \<Longrightarrow> live_main s'"
  by (erule step_cases, assumption) (simp_all add: live_main_def)

lemma tasks_ok_step:
  assumes "live_main s" "list_all task_ok (tasks s)" "step t s = Some s'"
  shows "list_all task_ok (tasks s')"
  using assms(3,1,2)
  by (cases rule: step_cases)
     (auto simp: task_ok_def list_all_length nth_list_update nth_append)

lemma nth_le_sum_list_map:
  fixes f :: "'a \<Rightarrow> int"
  assumes "\<And>x. 0 \<le> f x"
  shows "i < length xs \<Longrightarrow> f (xs ! i) \<le> sum_list (map f xs)"
proof (induction xs arbitrary: i)
  case Nil
  then show ?case by simp
next
  case (Cons x xs)
  have nn: "0 \<le> sum_list (map f xs)"
    by (rule sum_list_nonneg) (auto simp: assms)
  show ?case
  proof (cases i)
    case 0
    with nn show ?thesis by simp
  next
    case (Suc j)
    with Cons.prems have "j < length xs" by simp
    from Cons.IH[OF this] Suc assms[of x] show ?thesis by simp
  qed
qed

lemma task_holds_le:
  "i < length (tasks s) \<Longrightarrow> task_holds (tasks s ! i) \<le> sum_list (map task_holds (tasks s))"
  by (rule nth_le_sum_list_map) (simp add: task_holds_def holds_mutex_def split: handler_pc.splits)

lemma unfinished_le:
  "i < length (tasks s) \<Longrightarrow> unfinished (tasks s ! i) \<le> sum_list (map unfinished (tasks s))"
  by (rule nth_le_sum_list_map) (simp add: unfinished_def)

lemma lock_inv_step:
  assumes "live_main s" "lock_inv s" "step t s = Some s'"
  shows "lock_inv s'"
  using assms(3,1,2)
proof (cases rule: step_cases)
  case (TUnlock i)
  with assms(2) task_holds_le[of i s] show ?thesis
    by (auto simp: lock_inv_def task_holds_def holds_mutex_def sum_list_map_update split: if_splits)
qed (auto simp: lock_inv_def task_holds_def holds_mutex_def sum_list_map_update split: if_splits)

lemma wg_inv_step:
  assumes "live_main s" "wg_inv s" "step t s = Some s'"
  shows "wg_inv s'"
  using assms(3,1,2)
proof (cases rule: step_cases)
  case (TDone i)
  with assms(2) unfinished_le[of i s] show ?thesis
    by (auto simp: wg_inv_def unfinished_def sum_list_map_update split: if_splits)
qed (auto simp: wg_inv_def unfinished_def sum_list_map_update split: if_splits)

section \<open>Every step lowers the rank; no state is stuck before the return\<close>

lemma send_rank_nonneg: "0 \<le> send_rank p"
  by (cases p) simp_all

lemma handler_rank_nonneg: "0 \<le> handler_rank p"
  using send_rank_nonneg by (cases p) simp_all

lemma main_rank_nonneg: "0 \<le> main_rank p"
  using send_rank_nonneg by (cases p) simp_all

lemma rank_nonneg: "0 \<le> rank s"
proof -
  have "0 \<le> sum_list (map (\<lambda>t. handler_rank (t_pc t)) (tasks s))"
    by (rule sum_list_nonneg) (auto simp: handler_rank_nonneg)
  with main_rank_nonneg[of "main s"] show ?thesis
    by (simp add: rank_def)
qed

lemma rank_step:
  assumes "live_main s" "step t s = Some s'"
  shows "rank s' < rank s"
  using assms(2,1)
  by (cases rule: step_cases) (auto simp: rank_def sum_list_map_update)

lemma rank_init: "rank (serveCodec_init c) = 10 * int (length (incoming c)) + 3"
  by (simp add: rank_def serveCodec_init_def)

lemma sum_list_map_nonzero:
  fixes f :: "'a \<Rightarrow> int"
  shows "sum_list (map f xs) \<noteq> 0 \<Longrightarrow> \<exists>i<length xs. f (xs ! i) \<noteq> 0"
proof (induction xs)
  case Nil
  then show ?case by simp
next
  case (Cons x xs)
  show ?case
  proof (cases "f x = 0")
    case True
    with Cons obtain i where "i < length xs" "f (xs ! i) \<noteq> 0" by auto
    then have "Suc i < length (x # xs) \<and> f ((x # xs) ! Suc i) \<noteq> 0" by simp
    then show ?thesis by blast
  next
    case False
    then have "0 < length (x # xs) \<and> f ((x # xs) ! 0) \<noteq> 0" by simp
    then show ?thesis by blast
  qed
qed

lemma task_enabled:
  assumes "i < length (tasks s)" "task_ok (tasks s ! i)" "t_pc (tasks s ! i) \<noteq> HFinished"
    and "t_pc (tasks s ! i) = HSend AtLock \<longrightarrow> \<not> sending s"
  shows "step (Task i) s \<noteq> None"
proof (cases "t_pc (tasks s ! i)")
  case (HSend p)
  with assms show ?thesis
    by (cases p)
       (auto simp: handleRequest_step_def sendResponse_step_def task_ok_def Write_def
             split: option.splits)
qed (use assms in \<open>auto simp: handleRequest_step_def\<close>)

lemma holder_enabled:
  assumes "list_all task_ok (tasks s)" "lock_inv s" "sending s"
  shows "\<exists>j. step (Task j) s \<noteq> None"
proof -
  from assms have "sum_list (map task_holds (tasks s)) \<noteq> 0"
    by (simp add: lock_inv_def)
  then obtain j where j: "j < length (tasks s)" "task_holds (tasks s ! j) \<noteq> 0"
    using sum_list_map_nonzero by blast
  then have pc: "t_pc (tasks s ! j) \<noteq> HFinished" "t_pc (tasks s ! j) \<noteq> HSend AtLock"
    by (auto simp: task_holds_def holds_mutex_def)
  from assms(1) j(1) have "task_ok (tasks s ! j)"
    by (simp add: list_all_length)
  with j(1) pc have "step (Task j) s \<noteq> None"
    by (intro task_enabled) auto
  then show ?thesis ..
qed

lemma progress:
  assumes "live_main s" "list_all task_ok (tasks s)" "lock_inv s" "wg_inv s"
    and "main s \<noteq> MReturned"
  shows "\<exists>t. step t s \<noteq> None"
proof (cases "main s")
  case MRead
  then have "step Main s \<noteq> None"
    by (cases "incoming (cc s)")
       (auto simp: serveCodec_step_MRead_Nil serveCodec_step_MRead_Cons)
  then show ?thesis ..
next
  case MWait
  show ?thesis
  proof (cases "wg s = 0")
    case True
    with MWait have "step Main s \<noteq> None" by (simp add: serveCodec_step_def)
    then show ?thesis ..
  next
    case False
    with assms(4) have "sum_list (map unfinished (tasks s)) \<noteq> 0"
      by (simp add: wg_inv_def)
    then obtain i where i: "i < length (tasks s)" "unfinished (tasks s ! i) \<noteq> 0"
      using sum_list_map_nonzero by blast
    then have nf: "t_pc (tasks s ! i) \<noteq> HFinished"
      by (auto simp: unfinished_def)
    from assms(2) i(1) have ok: "task_ok (tasks s ! i)"
      by (simp add: list_all_length)
    show ?thesis
    proof (cases "sending s")
      case True
      with assms(2,3) show ?thesis
        using holder_enabled by blast
    next
      case False
      with i(1) ok nf have "step (Task i) s \<noteq> None"
        by (intro task_enabled) auto
      then show ?thesis ..
    qed
  qed
next
  case MClose
  then have "step Main s \<noteq> None" by (simp add: serveCodec_step_def)
  then show ?thesis ..
qed (use assms in \<open>auto simp: live_main_def\<close>)

section \<open>Invariants of the trace\<close>

lemma responses_append [simp]: "responses (xs @ ys) = responses xs @ responses ys"
  by (induction xs rule: responses.induct) simp_all

lemma failed_writes_append [simp]: "failed_writes (xs @ ys) = failed_writes xs @ failed_writes ys"
  by (induction xs rule: failed_writes.induct) simp_all

lemma logged_write_errors_append [simp]:
  "logged_write_errors (xs @ ys) = logged_write_errors xs @ logged_write_errors ys"
  by (induction xs rule: logged_write_errors.induct) simp_all

lemma logged_header_errors_append [simp]:
  "logged_header_errors (xs @ ys) = logged_header_errors xs @ logged_header_errors ys"
  by (induction xs rule: logged_header_errors.induct) simp_all

lemma write_calls_append:
  "write_calls w (xs @ ys) =
     (case write_calls w xs of None \<Rightarrow> None | Some w' \<Rightarrow> write_calls w' ys)"
  by (induction w xs rule: write_calls.induct) simp_all

lemma resp_inv_step:
  assumes "live_main s" "list_all task_ok (tasks s)" "resp_inv c s" "step t s = Some s'"
  shows "resp_inv c s'"
  using assms(4,1)
proof (cases rule: step_cases)
  case (TBegin i rv)
  let ?r = "(req_h (t_req (tasks s ! i)), Reply rv)"
  from assms(2) TBegin(2) have "task_ok (tasks s ! i)"
    by (simp add: list_all_length)
  with TBegin have rv: "rv = geerpc_resp (Seq (req_h (t_req (tasks s ! i))))"
    by (simp add: task_ok_def)
  have "sum_list (map to_write ((tasks s)[i := (tasks s ! i)\<lparr>t_pc := HSend InWrite\<rparr>]))
          + to_write (tasks s ! i)
        = sum_list (map to_write (tasks s)) + to_write ((tasks s ! i)\<lparr>t_pc := HSend InWrite\<rparr>)"
    using TBegin(2) by (rule sum_list_map_update_add)
  with TBegin rv have B: "sum_list (map to_write (tasks s')) + {#?r#} = sum_list (map to_write (tasks s))"
    by (simp add: to_write_def)
  from TBegin have A: "mset (responses (trace s')) = mset (responses (trace s)) + {#?r#}"
    and C: "cc s' = cc s"
    by simp_all
  show ?thesis
    unfolding resp_inv_def A C
    using assms(3)[unfolded resp_inv_def, folded B] by (simp add: ac_simps)
next
  case (Spawn hdr a be fs)
  with assms(3) show ?thesis
    by (cases be) (simp_all add: resp_inv_def to_write_def expected_def)
qed (use assms(3) in \<open>simp_all add: resp_inv_def to_write_def sum_list_map_update_same\<close>)

lemma werr_inv_step:
  assumes "live_main s" "werr_inv s" "step t s = Some s'"
  shows "werr_inv s'"
  using assms(3,1)
proof (cases rule: step_cases)
  case (TEndErr i rv err)
  have "sum_list (map to_log ((tasks s)[i := (tasks s ! i)\<lparr>t_pc := HSend (AtLogErr err)\<rparr>]))
          + to_log (tasks s ! i)
        = sum_list (map to_log (tasks s)) + to_log ((tasks s ! i)\<lparr>t_pc := HSend (AtLogErr err)\<rparr>)"
    using TEndErr(2) by (rule sum_list_map_update_add)
  with assms(2) TEndErr show ?thesis
    by (simp add: werr_inv_def to_log_def)
next
  case (TLogErr i err)
  have "sum_list (map to_log ((tasks s)[i := (tasks s ! i)\<lparr>t_pc := HSend AtUnlock\<rparr>]))
          + to_log (tasks s ! i)
        = sum_list (map to_log (tasks s)) + to_log ((tasks s ! i)\<lparr>t_pc := HSend AtUnlock\<rparr>)"
    using TLogErr(2) by (rule sum_list_map_update_add)
  with assms(2) TLogErr show ?thesis
    by (simp add: werr_inv_def to_log_def)
next
  case (Spawn hdr a be fs)
  with assms(2) show ?thesis
    by (cases be) (simp_all add: werr_inv_def to_log_def)
qed (use assms(2) in \<open>simp_all add: werr_inv_def to_log_def sum_list_map_update_same\<close>)

lemma codec_inv_step:
  assumes "live_main s" "codec_inv c s" "step t s = Some s'"
  shows "codec_inv c s'"
  using assms(3,1)
proof (cases rule: step_cases)
  case (Spawn hdr a be fs)
  with assms(2) show ?thesis
    by (cases be) (simp_all add: codec_inv_def)
qed (use assms(2) in \<open>auto simp: codec_inv_def eof_class_def\<close>)

lemma nth_nth_le_sum_list_map:
  fixes f :: "'a \<Rightarrow> int"
  assumes nn: "\<And>x. 0 \<le> f x"
  shows "i < length xs \<Longrightarrow> j < length xs \<Longrightarrow> i \<noteq> j \<Longrightarrow>
         f (xs ! i) + f (xs ! j) \<le> sum_list (map f xs)"
proof (induction xs arbitrary: i j)
  case Nil
  then show ?case by simp
next
  case (Cons x xs)
  show ?case
  proof (cases i)
    case 0
    with Cons.prems obtain j' where j: "j = Suc j'" "j' < length xs"
      by (cases j) auto
    from nth_le_sum_list_map[of f j' xs] nn j 0 show ?thesis by simp
  next
    case (Suc i')
    note i = this
    show ?thesis
    proof (cases j)
      case 0
      from Cons.prems i have "i' < length xs" by simp
      from nth_le_sum_list_map[of f i' xs, OF nn this] i 0 show ?thesis by simp
    next
      case (Suc j')
      with Cons.prems i have "i' < length xs" "j' < length xs" "i' \<noteq> j'" by auto
      from Cons.IH[OF this] i Suc nn[of x] show ?thesis by simp
    qed
  qed
qed

lemma task_holds_nonneg: "0 \<le> task_holds t"
  by (simp add: task_holds_def holds_mutex_def split: handler_pc.splits)

lemma holders_unique:
  assumes "lock_inv s" "i < length (tasks s)" "j < length (tasks s)"
    and "task_holds (tasks s ! i) = 1" "task_holds (tasks s ! j) = 1"
  shows "i = j"
proof (rule ccontr)
  assume "i \<noteq> j"
  with assms(2,3) have "task_holds (tasks s ! i) + task_holds (tasks s ! j)
      \<le> sum_list (map task_holds (tasks s))"
    by (intro nth_nth_le_sum_list_map) (auto simp: task_holds_nonneg)
  with assms(1,4,5) show False
    by (simp add: lock_inv_def split: if_splits)
qed

lemma holder_sending:
  assumes "lock_inv s" "i < length (tasks s)" "task_holds (tasks s ! i) = 1"
  shows "sending s"
  using assms task_holds_le[of i s] by (simp add: lock_inv_def split: if_splits)

lemma in_write_sum:
  assumes "lock_inv s" "i < length (tasks s)" "task_holds (tasks s ! i) = 1"
  shows "sum_list (map in_write (tasks s)) = in_write (tasks s ! i)"
proof -
  let ?g = "\<lambda>t. task_holds t - in_write t"
  have g: "\<And>t. 0 \<le> ?g t"
    by (auto simp: task_holds_def holds_mutex_def in_write_def split: handler_pc.splits)
  have "?g (tasks s ! i) \<le> sum_list (map ?g (tasks s))"
    using g assms(2) by (rule nth_le_sum_list_map)
  then have "?g (tasks s ! i) \<le> sum_list (map task_holds (tasks s)) - sum_list (map in_write (tasks s))"
    by (simp add: sum_list_subtractf)
  moreover have "in_write (tasks s ! i) \<le> sum_list (map in_write (tasks s))"
    using assms(2) by (intro nth_le_sum_list_map) (simp add: in_write_def)
  moreover from assms(1) have "sum_list (map task_holds (tasks s)) \<le> 1"
    by (simp add: lock_inv_def split: if_splits)
  ultimately show ?thesis using assms(3) by simp
qed

lemma no_task_step_after_wait:
  assumes "live_main s" "wg_inv s" "main s = MClose \<or> main s = MReturned"
  shows "step (Task i) s = None"
proof (rule ccontr)
  assume "step (Task i) s \<noteq> None"
  then obtain s' where st: "step (Task i) s = Some s'" by auto
  then have i: "i < length (tasks s)" by (simp split: if_splits)
  from st have "t_pc (tasks s ! i) \<noteq> HFinished"
    by (auto simp: handleRequest_step_def split: if_splits)
  with unfinished_le[OF i] assms(2,3) show False
    by (simp add: wg_inv_def unfinished_def)
qed

lemma no_step_after_return:
  assumes "live_main s" "wg_inv s" "main s = MReturned"
  shows "step t s = None"
proof (cases t)
  case Main
  with assms(3) show ?thesis by (simp add: serveCodec_step_def)
next
  case (Task i)
  with assms no_task_step_after_wait[of s i] show ?thesis by blast
qed

lemma close_inv_step:
  assumes "live_main s" "wg_inv s" "close_inv s" "step t s = Some s'"
  shows "close_inv s'"
proof -
  from assms(1,2,4) have nr: "main s \<noteq> MReturned"
    using no_step_after_return by fastforce
  from assms(4,1) show ?thesis
  proof (cases rule: step_cases)
    case (Spawn hdr a be fs)
    with assms(3) show ?thesis
      by (cases be) (simp_all add: close_inv_def)
  qed (use assms(3) nr in \<open>auto simp: close_inv_def\<close>)
qed

lemma calls_inv_step:
  assumes "live_main s" "lock_inv s" "calls_inv s" "step t s = Some s'"
  shows "calls_inv s'"
  using assms(4,1)
proof (cases rule: step_cases)
  case (Spawn hdr a be fs)
  with assms(3) show ?thesis
    by (cases be) (simp_all add: calls_inv_def write_calls_append in_write_def)
next
  case (TBegin i rv)
  then have "task_holds (tasks s ! i) = 1" by (simp add: task_holds_def holds_mutex_def)
  from in_write_sum[OF assms(2) TBegin(2) this] TBegin
  have "sum_list (map in_write (tasks s)) = 0" by (simp add: in_write_def)
  with assms(3) TBegin show ?thesis
    by (simp add: calls_inv_def write_calls_append in_write_def sum_list_map_update)
next
  case (TEndOk i rv)
  then have "task_holds (tasks s ! i) = 1" by (simp add: task_holds_def holds_mutex_def)
  from in_write_sum[OF assms(2) TEndOk(2) this] TEndOk
  have "sum_list (map in_write (tasks s)) = 1" by (simp add: in_write_def)
  with assms(3) TEndOk show ?thesis
    by (simp add: calls_inv_def write_calls_append in_write_def sum_list_map_update)
next
  case (TEndErr i rv err)
  then have "task_holds (tasks s ! i) = 1" by (simp add: task_holds_def holds_mutex_def)
  from in_write_sum[OF assms(2) TEndErr(2) this] TEndErr
  have "sum_list (map in_write (tasks s)) = 1" by (simp add: in_write_def)
  with assms(3) TEndErr show ?thesis
    by (simp add: calls_inv_def write_calls_append in_write_def sum_list_map_update)
qed (use assms(3) in \<open>auto simp: calls_inv_def write_calls_append in_write_def sum_list_map_update\<close>)

section \<open>The decimal digits determine the number\<close>

declare decimal.simps [simp del]

lemma of_char_digit: "d < 10 \<Longrightarrow> of_char (digit d) = 48 + d"
proof -
  assume "d < 10"
  then consider "d = 0" | "d = 1" | "d = 2" | "d = 3" | "d = 4" | "d = 5" | "d = 6"
    | "d = 7" | "d = 8" | "d = 9"
    by atomize_elim arith
  then show ?thesis
    by cases (simp_all add: digit_def)
qed

lemma undecimal_digit: "d < 10 \<Longrightarrow> undecimal (cs @ [digit d]) = 10 * undecimal cs + d"
  by (simp add: undecimal_def of_char_digit)

lemma undecimal_decimal: "undecimal (decimal n) = n"
proof (induction n rule: decimal.induct)
  case (1 n)
  show ?case
  proof (cases "n < 10")
    case True
    with undecimal_digit[of n "[]"] show ?thesis
      by (simp add: decimal.simps[of n] undecimal_def)
  next
    case False
    with 1 undecimal_digit[of "n mod 10" "decimal (n div 10)"] show ?thesis
      by (simp add: decimal.simps[of n])
  qed
qed

lemma decimal_inj: "decimal m = decimal n \<Longrightarrow> m = n"
  using undecimal_decimal by metis

lemma geerpc_resp_inj: "geerpc_resp a = geerpc_resp b \<Longrightarrow> a = b"
proof -
  assume "geerpc_resp a = geerpc_resp b"
  then have "decimal (unat a) = decimal (unat b)"
    by (simp add: geerpc_resp_def)
  then have "unat a = unat b" by (rule decimal_inj)
  then show "a = b" by (simp add: word_unat_eq_iff)
qed

section \<open>All reachable states\<close>

lemma fail_inv_step:
  assumes "live_main s" "fail_inv c s" "step t s = Some s'"
  shows "fail_inv c s'"
  using assms(3,1)
proof (cases rule: step_cases)
  case (Spawn hdr a be fs)
  with assms(2) show ?thesis
    by (cases be) (simp_all add: fail_inv_def)
next
  case (TEndErr i rv err)
  with assms(2) have "write_result c (nwrites (cc s)) (req_h (t_req (tasks s ! i))) (Reply rv) = Some err"
    by (simp add: fail_inv_def)
  then have "\<exists>n hdr b. write_result c n hdr b = Some err" by blast
  with assms(2) TEndErr show ?thesis
    by (simp add: fail_inv_def)
qed (use assms(2) in \<open>simp_all add: fail_inv_def\<close>)

lemma map_update_same:
  "i < length xs \<Longrightarrow> f y = f (xs ! i) \<Longrightarrow> map f (xs[i := y]) = map f xs"
  by (simp add: map_update list_update_same_conv)

lemma spawn_inv_step:
  assumes "live_main s" "spawn_inv c s" "step t s = Some s'"
  shows "spawn_inv c s'"
  using assms(3,1)
proof (cases rule: step_cases)
  case (Spawn hdr a be fs)
  with assms(2) show ?thesis
    by (cases be) (simp_all add: spawn_inv_def)
qed (use assms(2) in \<open>simp_all add: spawn_inv_def map_update_same\<close>)

lemma reach_inv_init: "reach_inv c (serveCodec_init c)"
  by (simp add: reach_inv_def serveCodec_init_def live_main_def lock_inv_def wg_inv_def
      resp_inv_def werr_inv_def codec_inv_def close_inv_def calls_inv_def fail_inv_def
      spawn_inv_def)

lemma reach_inv_step:
  assumes "reach_inv c s" "step t s = Some s'"
  shows "reach_inv c s'"
proof -
  from assms(1) have l: "live_main s" and o: "list_all task_ok (tasks s)" and k: "lock_inv s"
    and w: "wg_inv s" and r: "resp_inv c s" and e: "werr_inv s" and d: "codec_inv c s"
    and z: "close_inv s" and a: "calls_inv s" and f: "fail_inv c s" and p: "spawn_inv c s"
    by (simp_all add: reach_inv_def)
  note st = assms(2)
  show ?thesis
    unfolding reach_inv_def
    using live_main_step[OF l st] tasks_ok_step[OF l o st] lock_inv_step[OF l k st]
      wg_inv_step[OF l w st] resp_inv_step[OF l o r st] werr_inv_step[OF l e st]
      codec_inv_step[OF l d st] close_inv_step[OF l w z st] calls_inv_step[OF l k a st]
      fail_inv_step[OF l f st] spawn_inv_step[OF l p st]
    by simp
qed

lemma reach_inv_exec: "reach_inv c s \<Longrightarrow> exec sched s = Some s' \<Longrightarrow> reach_inv c s'"
proof (induction sched arbitrary: s)
  case Nil
  then show ?case by simp
next
  case (Cons t ts)
  from Cons.prems(2) obtain s1 where s1: "step t s = Some s1" "exec ts s1 = Some s'"
    by (auto split: option.splits)
  from Cons.prems(1) s1(1) have "reach_inv c s1" by (rule reach_inv_step)
  then show ?case using s1(2) by (rule Cons.IH)
qed

lemma reachable: "exec sched (serveCodec_init c) = Some s \<Longrightarrow> reach_inv c s"
  using reach_inv_init by (rule reach_inv_exec)

lemma exec_append:
  "exec (xs @ ys) s = (case exec xs s of None \<Rightarrow> None | Some s' \<Rightarrow> exec ys s')"
  by (induction xs arbitrary: s) (auto split: option.splits)

lemma exec_rank:
  "reach_inv c s \<Longrightarrow> exec sched s = Some s' \<Longrightarrow> rank s' + int (length sched) \<le> rank s"
proof (induction sched arbitrary: s)
  case Nil
  then show ?case by simp
next
  case (Cons t ts)
  from Cons.prems(2) obtain s1 where s1: "step t s = Some s1" "exec ts s1 = Some s'"
    by (auto split: option.splits)
  from Cons.prems(1) s1(1) have inv1: "reach_inv c s1" by (rule reach_inv_step)
  from Cons.prems(1) have "live_main s" by (simp add: reach_inv_def)
  then have "rank s1 < rank s" using s1(1) by (rule rank_step)
  with Cons.IH[OF inv1 s1(2)] show ?case by simp
qed

lemma exec_length:
  assumes "exec sched (serveCodec_init c) = Some s"
  shows "int (length sched) \<le> 10 * int (length (incoming c)) + 3"
  using exec_rank[OF reach_inv_init assms] rank_nonneg[of s] by (simp add: rank_init)

lemma reach_progress:
  assumes "reach_inv c s" "main s \<noteq> MReturned"
  shows "\<exists>t. step t s \<noteq> None"
  using assms progress by (simp add: reach_inv_def)

lemma can_finish:
  "reach_inv c s \<Longrightarrow> \<exists>sched s'. exec sched s = Some s' \<and> main s' = MReturned"
proof (induction "nat (rank s)" arbitrary: s rule: less_induct)
  case less
  show ?case
  proof (cases "main s = MReturned")
    case True
    then have "exec [] s = Some s \<and> main s = MReturned" by simp
    then show ?thesis by blast
  next
    case False
    with less.prems obtain t s1 where st: "step t s = Some s1"
      using reach_progress by fastforce
    from less.prems st have inv1: "reach_inv c s1" by (rule reach_inv_step)
    from less.prems have "live_main s" by (simp add: reach_inv_def)
    then have "rank s1 < rank s" using st by (rule rank_step)
    with rank_nonneg[of s1] have "nat (rank s1) < nat (rank s)" by simp
    from less.hyps[OF this inv1] obtain sched s' where
      "exec sched s1 = Some s'" "main s' = MReturned" by blast
    with st have "exec (t # sched) s = Some s' \<and> main s' = MReturned" by simp
    then show ?thesis by blast
  qed
qed

section \<open>Completed runs\<close>

lemmas model_defs =
  serveCodec_init_def serveCodec_step_def readRequest_def readRequestHeader_def
  ReadHeader_def ReadBody_def Write_def handleRequest_step_def sendResponse_step_def

lemma after_close_none: "CodecClose \<notin> set xs \<Longrightarrow> after_close (xs @ ys) = after_close ys"
  by (induction xs) auto


lemma after_close_last:
  assumes "xs \<noteq> []" "last xs = CodecClose" "CodecClose \<notin> set (butlast xs)"
  shows "after_close (xs @ ys) = ys"
proof -
  from assms(1,2) have "xs = butlast xs @ [CodecClose]"
    using append_butlast_last_id by metis
  then have "after_close (xs @ ys) = after_close (butlast xs @ ([CodecClose] @ ys))"
    by (metis append_assoc)
  also have "\<dots> = after_close ([CodecClose] @ ys)"
    using assms(3) by (rule after_close_none)
  finally show ?thesis by simp
qed

lemma ServeConn_serving:
  assumes "ServeConn_handshake e conn = (lg, Some c)"
  shows "lg = []"
    and "ServeConn e conn sched =
      (case exec sched (serveCodec_init c) of
         None \<Rightarrow> None
       | Some s \<Rightarrow> if main s = MReturned then Some (trace s @ [ConnClose]) else None)"
proof -
  from assms show lg: "lg = []"
    by (auto simp: ServeConn_handshake_def split: sum.splits if_splits option.splits)
  with assms show "ServeConn e conn sched =
      (case exec sched (serveCodec_init c) of
         None \<Rightarrow> None
       | Some s \<Rightarrow> if main s = MReturned then Some (trace s @ [ConnClose]) else None)"
    by (simp add: ServeConn_def defer_conn_Close_def split: option.splits)
qed

lemma ServeConn_returns:
  assumes "ServeConn_handshake e conn = (lg, Some c)" "ServeConn e conn sched = Some tr"
  obtains s where "exec sched (serveCodec_init c) = Some s" "main s = MReturned"
    "tr = trace s @ [ConnClose]"
  using assms(2) unfolding ServeConn_serving(2)[OF assms(1)]
  by (auto split: option.splits if_splits)

lemma all_finished:
  assumes "wg_inv s" "main s = MClose \<or> main s = MReturned"
  shows "list_all (\<lambda>t. t_pc t = HFinished) (tasks s)"
proof -
  have "t_pc (tasks s ! i) = HFinished" if "i < length (tasks s)" for i
    using unfinished_le[OF that] assms by (simp add: wg_inv_def unfinished_def split: if_splits)
  then show ?thesis by (simp add: list_all_length)
qed

lemma sum_list_map_zero:
  fixes f :: "'a \<Rightarrow> 'b::monoid_add"
  shows "(\<And>x. x \<in> set xs \<Longrightarrow> f x = 0) \<Longrightarrow> sum_list (map f xs) = 0"
  by (induction xs) simp_all

lemma returned_resp:
  assumes "reach_inv c s" "main s = MReturned"
  shows "mset (responses (trace s)) = mset (map expected (incoming c))"
proof -
  from assms have fin: "list_all (\<lambda>t. t_pc t = HFinished) (tasks s)"
    by (intro all_finished) (simp_all add: reach_inv_def)
  have "to_write t = {#}" if "t \<in> set (tasks s)" for t
    using fin that by (auto simp: list_all_iff to_write_def)
  then have "sum_list (map to_write (tasks s)) = {#}"
    using sum_list_map_zero[of "tasks s" to_write] by simp
  moreover from assms have "incoming (cc s) = []"
    by (simp add: reach_inv_def codec_inv_def)
  moreover from assms have "resp_inv c s" by (simp add: reach_inv_def)
  ultimately show ?thesis by (simp add: resp_inv_def)
qed

lemma joined_resp:
  assumes "reach_inv c s" "main s = MClose \<or> main s = MReturned"
  shows "mset (responses (trace s)) = mset (map expected (incoming c))"
proof -
  from assms have fin: "list_all (\<lambda>t. t_pc t = HFinished) (tasks s)"
    by (intro all_finished) (simp_all add: reach_inv_def)
  have "to_write t = {#}" if "t \<in> set (tasks s)" for t
    using fin that by (auto simp: list_all_iff to_write_def)
  then have "sum_list (map to_write (tasks s)) = {#}"
    using sum_list_map_zero[of "tasks s" to_write] by simp
  moreover from assms have "incoming (cc s) = []"
    by (auto simp: reach_inv_def codec_inv_def)
  moreover from assms have "resp_inv c s" by (simp add: reach_inv_def)
  ultimately show ?thesis by (simp add: resp_inv_def)
qed

lemma joined_calls:
  assumes "reach_inv c s" "main s = MClose \<or> main s = MReturned"
  shows "write_calls False (trace s) = Some False"
proof -
  from assms have fin: "list_all (\<lambda>t. t_pc t = HFinished) (tasks s)"
    by (intro all_finished) (simp_all add: reach_inv_def)
  have "in_write t = 0" if "t \<in> set (tasks s)" for t
    using fin that by (auto simp: list_all_iff in_write_def)
  then have "sum_list (map in_write (tasks s)) = 0"
    using sum_list_map_zero[of "tasks s" in_write] by simp
  with assms(1) show ?thesis by (simp add: reach_inv_def calls_inv_def)
qed

lemma joined_tasks:
  assumes "reach_inv c s" "main s \<noteq> MRead"
  shows "map (\<lambda>t. req_h (t_req t)) (tasks s) = map fst (incoming c)"
  using assms by (auto simp: reach_inv_def spawn_inv_def codec_inv_def)

lemma wait_blocks:
  assumes "reach_inv c s" "main s = MWait" "\<not> list_all (\<lambda>t. t_pc t = HFinished) (tasks s)"
  shows "step Main s = None"
proof -
  from assms(3) obtain i where i: "i < length (tasks s)" "t_pc (tasks s ! i) \<noteq> HFinished"
    by (auto simp: list_all_length)
  with unfinished_le[OF i(1)] have "1 \<le> sum_list (map unfinished (tasks s))"
    by (simp add: unfinished_def)
  with assms(1) have "wg s \<noteq> 0" by (simp add: reach_inv_def wg_inv_def)
  with assms(2) show ?thesis by (simp add: serveCodec_step_def)
qed

lemma returned_trace:
  assumes "reach_inv c s" "main s = MReturned"
  shows "trace s \<noteq> []" "last (trace s) = CodecClose" "CodecClose \<notin> set (butlast (trace s))"
  using assms by (simp_all add: reach_inv_def close_inv_def)

lemma two_requests_run:
  "map_option (\<lambda>s. (main s, map t_pc (tasks s), trace s))
     (exec interleaved (serveCodec_init (two_requests writes_succeed)))
   = Some (MReturned, [HFinished, HFinished], two_requests_trace)"
  by (simp add: model_defs interleaved_def two_requests_def writes_succeed_def
      two_requests_trace_def geerpc_resp_def decimal.simps digit_def)

lemma no_failed_writes:
  assumes "reach_inv c s" "\<forall>n hdr b. write_result c n hdr b = None"
  shows "failed_writes (trace s) = []"
proof (cases "failed_writes (trace s)")
  case Nil
  then show ?thesis .
next
  case (Cons err es)
  with assms(1) have "\<exists>n hdr b. write_result c n hdr b = Some err"
    by (simp add: reach_inv_def fail_inv_def)
  with assms(2) show ?thesis by simp
qed

lemma response_is_expected:
  assumes "reach_inv c s" "r \<in> set (responses (trace s))"
  shows "r \<in> expected ` set (incoming c)"
proof -
  from assms(1) have "mset (responses (trace s)) + (sum_list (map to_write (tasks s))
        + mset (map expected (incoming (cc s)))) = mset (map expected (incoming c))"
    by (simp add: reach_inv_def resp_inv_def add.assoc)
  then have "mset (responses (trace s)) \<subseteq># mset (map expected (incoming c))"
    using mset_subset_eq_add_left by metis
  then have "set_mset (mset (responses (trace s))) \<subseteq> set_mset (mset (map expected (incoming c)))"
    by (rule set_mset_mono)
  with assms(2) show ?thesis by auto
qed

text \<open>
  \<^verbatim>\<open>serveCodec\<close> answers every frame that its codec delivers: when the handshake has
  built the codec \<open>c\<close>, \<^verbatim>\<open>ServeConn\<close> can return, no interleaving takes more than
  \<open>10 * K + 3\<close> steps for the K frames of \<open>c\<close>, none is stuck before the return, and at
  the return the responses are, up to their order, those for the K frames.
\<close>

lemma ServeConn_answers_every_frame:
  assumes "ServeConn_handshake e conn = (lg, Some c)"
  shows "(\<exists>sched tr. ServeConn e conn sched = Some tr) \<and>
         (\<forall>sched s. exec sched (serveCodec_init c) = Some s \<longrightarrow>
            int (length sched) \<le> 10 * int (length (incoming c)) + 3 \<and>
            (main s \<noteq> MReturned \<longrightarrow> (\<exists>t. step t s \<noteq> None))) \<and>
         (\<forall>sched tr. ServeConn e conn sched = Some tr \<longrightarrow>
            mset (responses tr) = mset (map expected (incoming c)) \<and>
            length (responses tr) = length (incoming c) \<and>
            after_close tr = [ConnClose] \<and>
            ((\<forall>n hdr b. write_result c n hdr b = None) \<longrightarrow> failed_writes tr = []))"
proof -
  have 1: "\<exists>sched tr. ServeConn e conn sched = Some tr"
  proof -
    from can_finish[OF reach_inv_init[of c]] obtain sched s where
      "exec sched (serveCodec_init c) = Some s" "main s = MReturned" by blast
    then have "ServeConn e conn sched = Some (trace s @ [ConnClose])"
      by (simp add: ServeConn_serving(2)[OF assms])
    then show ?thesis by blast
  qed
  have 2: "int (length sched) \<le> 10 * int (length (incoming c)) + 3 \<and>
           (main s \<noteq> MReturned \<longrightarrow> (\<exists>t. step t s \<noteq> None))"
    if "exec sched (serveCodec_init c) = Some s" for sched s
    using exec_length[OF that] reach_progress[OF reachable[OF that]] by simp
  have 3: "mset (responses tr) = mset (map expected (incoming c)) \<and>
           length (responses tr) = length (incoming c) \<and>
           after_close tr = [ConnClose] \<and>
           ((\<forall>n hdr b. write_result c n hdr b = None) \<longrightarrow> failed_writes tr = [])"
    if "ServeConn e conn sched = Some tr" for sched tr
  proof -
    from assms that obtain s where s: "exec sched (serveCodec_init c) = Some s"
      and m: "main s = MReturned" and tr: "tr = trace s @ [ConnClose]"
      by (rule ServeConn_returns)
    from s have inv: "reach_inv c s" by (rule reachable)
    from returned_resp[OF inv m] tr
    have a: "mset (responses tr) = mset (map expected (incoming c))" by simp
    from arg_cong[OF a, of size] have b: "length (responses tr) = length (incoming c)"
      by simp
    from after_close_last[OF returned_trace[OF inv m], of "[ConnClose]"] tr
    have d: "after_close tr = [ConnClose]" by simp
    have f: "failed_writes tr = []" if "\<forall>n hdr b. write_result c n hdr b = None"
      using no_failed_writes[OF inv that] tr by simp
    from a b d f show ?thesis by simp
  qed
  show ?thesis
    by (intro conjI allI impI) (use 1 2 3 in simp_all)
qed

section \<open>The properties stated by the specification\<close>

subsection \<open>C1: what a body that fails to decode is answered with\<close>

text \<open>
  C1.  What the specification states for this case does not hold of the code.  When the
  only frame of a connection has a body that fails to decode, \<^verbatim>\<open>readRequest\<close> logs the
  error and returns a nil error, so the request is dispatched like any other (the branch
  of \<^verbatim>\<open>serveCodec\<close> that would set the header's error and send \<^verbatim>\<open>invalidRequest\<close> is never
  taken): under every schedule the one response that
  \<^verbatim>\<open>ServeConn\<close> writes has the request's header unchanged, with the \<^verbatim>\<open>Error\<close> field as the
  client sent it, and the stub reply as its body, not the placeholder
  \<^verbatim>\<open>invalidRequest\<close>.  The connection does stay in service: the run goes on to the next
  header read and ends in the usual way.
\<close>

theorem body_decode_failure_gets_stub_reply:
  assumes "ServeConn_handshake e conn = (lg, Some c)"
    and "incoming c = [(hdr, a, Some err)]"
    and "ServeConn e conn sched = Some tr"
  shows "responses tr = [(hdr, Reply (geerpc_resp (Seq hdr)))] \<and>
         response_errors tr = [Error hdr] \<and>
         invalidRequest \<notin> snd ` set (responses tr)"
proof -
  from assms(1,3) obtain s where s: "exec sched (serveCodec_init c) = Some s"
    and m: "main s = MReturned" and tr: "tr = trace s @ [ConnClose]"
    by (rule ServeConn_returns)
  from s have inv: "reach_inv c s" by (rule reachable)
  from returned_resp[OF inv m] tr assms(2)
  have "mset (responses tr) = {#(hdr, Reply (geerpc_resp (Seq hdr)))#}"
    by (simp add: expected_def)
  then have "responses tr = [(hdr, Reply (geerpc_resp (Seq hdr)))]"
    by (simp add: mset_single_iff_right)
  then show ?thesis by (simp add: response_errors_def)
qed

text \<open>The failing input: a valid handshake, then one frame with header
  \<^verbatim>\<open>{Foo.Bar, 1, ""}\<close> whose body does not decode, then end of stream.\<close>

theorem body_decode_failure_gets_stub_reply_witness:
  "ServeConn
     (test_env (Inr DefaultOption)
        (one_request \<lparr>ServiceMethod = ''Foo.Bar'', Seq = 1, Error = ''''\<rparr> ''''
           (Some (OtherError ''decode failed'')) EOF))
     () run_one
   = Some [LogReadArgvErr (OtherError ''decode failed''),
           LogRequest \<lparr>ServiceMethod = ''Foo.Bar'', Seq = 1, Error = ''''\<rparr> '''',
           WriteBegin \<lparr>ServiceMethod = ''Foo.Bar'', Seq = 1, Error = ''''\<rparr> (Reply ''geerpc resp 1''),
           WriteEnd None, CodecClose, ConnClose] \<and>
   response_errors
     [LogReadArgvErr (OtherError ''decode failed''),
      LogRequest \<lparr>ServiceMethod = ''Foo.Bar'', Seq = 1, Error = ''''\<rparr> '''',
      WriteBegin \<lparr>ServiceMethod = ''Foo.Bar'', Seq = 1, Error = ''''\<rparr> (Reply ''geerpc resp 1''),
      WriteEnd None, CodecClose, ConnClose] = ['''']"
proof -
  let ?h = "\<lparr>ServiceMethod = ''Foo.Bar'', Seq = 1, Error = ''''\<rparr>"
  let ?c = "one_request ?h '''' (Some (OtherError ''decode failed'')) EOF"
  let ?e = "test_env (Inr DefaultOption) ?c"
  let ?tr = "[LogReadArgvErr (OtherError ''decode failed''), LogRequest ?h '''',
              WriteBegin ?h (Reply ''geerpc resp 1''), WriteEnd None, CodecClose, ConnClose]"
  have h: "ServeConn_handshake ?e () = ([], Some ?c)"
    by (simp add: ServeConn_handshake_def test_env_def init_NewCodecFuncMap_def
        DefaultOption_def)
  have i: "incoming ?c = [(?h, '''', Some (OtherError ''decode failed''))]"
    by (simp add: one_request_def)
  have run: "ServeConn ?e () run_one = Some ?tr"
    by (simp add: ServeConn_def ServeConn_handshake_def defer_conn_Close_def test_env_def
        init_NewCodecFuncMap_def DefaultOption_def model_defs run_one_def one_request_def
        writes_succeed_def geerpc_resp_def decimal.simps digit_def)
  from body_decode_failure_gets_stub_reply[OF h i run, THEN conjunct2, THEN conjunct1]
  have "response_errors ?tr = ['''']" by simp
  with run show ?thesis by (rule conjI)
qed

subsection \<open>C2: the codec is closed once, after every handler has finished\<close>



subsection \<open>C3: K requests sent behind the handshake do not always get K responses\<close>

text \<open>
  C3.  What the specification states here does not hold of the code.  Let the peer send a
  valid option record, then K well-formed requests back to back, then close its side,
  and let the decoder of the option record take the first \<open>k\<close> of these requests into
  its buffer.  \<^verbatim>\<open>ServeConn\<close> can return, and whenever it returns, under every schedule,
  the responses handed to \<^verbatim>\<open>cc.Write\<close> are, up to their order, those for the requests
  that the decoder left on the connection: \<open>K - k\<close> responses, not K.  \<^verbatim>\<open>ServeConn\<close>
  reads the option record with \<^verbatim>\<open>json.NewDecoder(conn)\<close> and then builds the codec on
  \<^verbatim>\<open>conn\<close> itself, so what the decoder buffered never reaches the codec.  Only when the
  decoder takes nothing beyond the option record (\<open>k = 0\<close>) does every request get its
  response.
\<close>

theorem ServeConn_answers_what_the_decoder_left:
  "ServeConn_handshake (read_ahead_env k) sent = ([], Some (stream_codec (drop k sent))) \<and>
   (\<exists>sched tr. ServeConn (read_ahead_env k) sent sched = Some tr) \<and>
   (\<forall>sched tr. ServeConn (read_ahead_env k) sent sched = Some tr \<longrightarrow>
      mset (responses tr) = mset (map expected (drop k sent)) \<and>
      length (responses tr) = length sent - k \<and>
      after_close tr = [ConnClose])"
proof -
  let ?c = "stream_codec (drop k sent)"
  have h: "ServeConn_handshake (read_ahead_env k) sent = ([], Some ?c)"
    by (simp add: ServeConn_handshake_def read_ahead_env_def init_NewCodecFuncMap_def
        DefaultOption_def)
  note f = ServeConn_answers_every_frame[OF h]
  from f have 1: "\<exists>sched tr. ServeConn (read_ahead_env k) sent sched = Some tr"
    by (rule conjunct1)
  have 2: "mset (responses tr) = mset (map expected (drop k sent)) \<and>
           length (responses tr) = length sent - k \<and>
           after_close tr = [ConnClose]"
    if "ServeConn (read_ahead_env k) sent sched = Some tr" for sched tr
    using f[THEN conjunct2, THEN conjunct2, rule_format, OF that]
    by (simp add: stream_codec_def)
  show ?thesis
    apply (intro conjI)
    subgoal by (rule h)
    subgoal by (rule 1)
    subgoal using 2 by simp
    done
qed

text \<open>
  The failing input: the two requests of the specification's example arrive together
  with the option record and the decoder's buffer takes both.  \<^verbatim>\<open>serveCodec\<close> meets the
  end of the stream at its first header read, and \<^verbatim>\<open>ServeConn\<close> returns without a single
  response.  When the buffer takes nothing, the same two requests are both answered.
\<close>

theorem ServeConn_answers_what_the_decoder_left_witness:
  "length sent_two = 2 \<and>
   ServeConn (read_ahead_env 2) sent_two [Main, Main, Main] = Some [CodecClose, ConnClose] \<and>
   length (responses [CodecClose, ConnClose]) = 0 \<and>
   ServeConn (read_ahead_env 0) sent_two interleaved = Some (two_requests_trace @ [ConnClose]) \<and>
   length (responses (two_requests_trace @ [ConnClose])) = 2"
proof -
  have n: "length sent_two = 2" by (simp add: sent_two_def)
  have r2: "ServeConn (read_ahead_env 2) sent_two [Main, Main, Main]
            = Some [CodecClose, ConnClose]"
    by (simp add: ServeConn_def ServeConn_handshake_def defer_conn_Close_def
        read_ahead_env_def init_NewCodecFuncMap_def DefaultOption_def stream_codec_def
        sent_two_def model_defs)
  have r0: "ServeConn (read_ahead_env 0) sent_two interleaved
            = Some (two_requests_trace @ [ConnClose])"
    by (simp add: ServeConn_def ServeConn_handshake_def defer_conn_Close_def
        read_ahead_env_def init_NewCodecFuncMap_def DefaultOption_def stream_codec_def
        sent_two_def model_defs interleaved_def writes_succeed_def two_requests_trace_def
        geerpc_resp_def decimal.simps digit_def)
  from ServeConn_answers_what_the_decoder_left[of 2 sent_two, THEN conjunct2,
      THEN conjunct2, rule_format, OF r2] n
  have l2: "length (responses [CodecClose, ConnClose]) = 0" by simp
  from ServeConn_answers_what_the_decoder_left[of 0 sent_two, THEN conjunct2,
      THEN conjunct2, rule_format, OF r0] n
  have l0: "length (responses (two_requests_trace @ [ConnClose])) = 2" by simp
  show ?thesis
    by (intro conjI) (fact n, fact r2, fact l2, fact r0, fact l0)
qed

subsection \<open>C4: a failed handshake closes the connection and writes nothing\<close>

text \<open>
  C4.  When the option record decodes but its magic number differs from \<open>0x3bef5c\<close>, or
  its codec type is not a key of \<^verbatim>\<open>NewCodecFuncMap\<close>, \<^verbatim>\<open>ServeConn\<close> returns whatever
  the schedule: no codec is built, the whole trace is one log line followed by the close
  of the connection, and it holds no call of \<^verbatim>\<open>Write\<close>.
\<close>

theorem ServeConn_rejects_bad_handshake:
  assumes "json_Decode e conn = Inr opt"
    and "opt_MagicNumber opt \<noteq> 0x3bef5c \<or> opt_CodecType opt \<notin> dom (NewCodecFuncMap e)"
  shows "\<exists>tr. ServeConn e conn sched = Some tr \<and>
              tr = [if opt_MagicNumber opt \<noteq> 0x3bef5c
                    then LogInvalidMagic (opt_MagicNumber opt)
                    else LogInvalidCodec (opt_CodecType opt), ConnClose] \<and>
              responses tr = [] \<and>
              snd (ServeConn_handshake e conn) = None"
proof (cases "opt_MagicNumber opt \<noteq> MagicNumber")
  case True
  with assms(1) have "ServeConn e conn sched = Some [LogInvalidMagic (opt_MagicNumber opt), ConnClose]"
    and "ServeConn_handshake e conn = ([LogInvalidMagic (opt_MagicNumber opt)], None)"
    by (simp_all add: ServeConn_def ServeConn_handshake_def defer_conn_Close_def)
  with True show ?thesis by (simp add: MagicNumber_def)
next
  case False
  with assms(2) have "NewCodecFuncMap e (opt_CodecType opt) = None"
    by (auto simp: MagicNumber_def)
  with False assms(1) have "ServeConn e conn sched = Some [LogInvalidCodec (opt_CodecType opt), ConnClose]"
    and "ServeConn_handshake e conn = ([LogInvalidCodec (opt_CodecType opt)], None)"
    by (simp_all add: ServeConn_def ServeConn_handshake_def defer_conn_Close_def)
  with False show ?thesis by (simp add: MagicNumber_def)
qed

text \<open>A magic number that is off by one, and the codec type \<^verbatim>\<open>application/json\<close>, which
  \<^verbatim>\<open>init\<close> does not register.\<close>

theorem ServeConn_rejects_bad_handshake_witness:
  "ServeConn (test_env (Inr \<lparr>opt_MagicNumber = 0x3bef5d, opt_CodecType = GobType\<rparr>)
       (two_requests writes_succeed)) () interleaved
     = Some [LogInvalidMagic 0x3bef5d, ConnClose] \<and>
   ServeConn (test_env (Inr \<lparr>opt_MagicNumber = 0x3bef5c, opt_CodecType = JsonType\<rparr>)
       (two_requests writes_succeed)) () interleaved
     = Some [LogInvalidCodec ''application/json'', ConnClose]"
proof -
  let ?o1 = "\<lparr>opt_MagicNumber = 0x3bef5d, opt_CodecType = GobType\<rparr>"
  let ?o2 = "\<lparr>opt_MagicNumber = 0x3bef5c, opt_CodecType = JsonType\<rparr>"
  let ?e1 = "test_env (Inr ?o1) (two_requests writes_succeed)"
  let ?e2 = "test_env (Inr ?o2) (two_requests writes_succeed)"
  have d1: "json_Decode ?e1 () = Inr ?o1" and d2: "json_Decode ?e2 () = Inr ?o2"
    by (simp_all add: test_env_def)
  have h1: "opt_MagicNumber ?o1 \<noteq> 0x3bef5c \<or> opt_CodecType ?o1 \<notin> dom (NewCodecFuncMap ?e1)"
    by simp
  have h2: "opt_MagicNumber ?o2 \<noteq> 0x3bef5c \<or> opt_CodecType ?o2 \<notin> dom (NewCodecFuncMap ?e2)"
    by (simp add: test_env_def init_NewCodecFuncMap_def GobType_def JsonType_def)
  from ServeConn_rejects_bad_handshake[OF d1 h1, of interleaved]
  have "ServeConn ?e1 () interleaved = Some [LogInvalidMagic 0x3bef5d, ConnClose]"
    by simp
  moreover from ServeConn_rejects_bad_handshake[OF d2 h2, of interleaved]
  have "ServeConn ?e2 () interleaved = Some [LogInvalidCodec ''application/json'', ConnClose]"
    by (simp add: JsonType_def)
  ultimately show ?thesis by simp
qed

subsection \<open>C5: a failed header read ends the loop; only errors outside the end-of-stream class are logged\<close>

text \<open>
  C5.  In every reachable state in which \<^verbatim>\<open>serveCodec\<close> is at the head of its loop and
  the next \<^verbatim>\<open>ReadHeader\<close> fails with \<open>err\<close>, the step of \<^verbatim>\<open>serveCodec\<close> leaves the loop
  for \<^verbatim>\<open>wg.Wait()\<close>; it starts no handler and drops none, and it logs nothing when \<open>err\<close>
  is \<^verbatim>\<open>io.EOF\<close> or \<^verbatim>\<open>io.ErrUnexpectedEOF\<close> and the line for \<open>err\<close> otherwise, in that same
  step.  Over a whole run the header errors logged are none while the loop runs, and
  afterwards none for the end-of-stream class and exactly that one error otherwise.
  Then the drain: \<^verbatim>\<open>serveCodec\<close> cannot pass \<^verbatim>\<open>wg.Wait()\<close> while a handler has not
  finished.  From every reachable state the run can be continued until \<^verbatim>\<open>serveCodec\<close>
  has returned; every continuation is bounded in length and is never stuck before that
  return; and once \<^verbatim>\<open>serveCodec\<close> has returned, the handlers that were in flight when
  the loop ended are all there and have finished, the response to every frame that was
  read has been handed to \<^verbatim>\<open>cc.Write\<close>, no call of \<^verbatim>\<open>cc.Write\<close> is open, and the close
  of the codec is the last event.
\<close>

theorem header_read_failure_ends_loop:
  assumes "exec sched (serveCodec_init c) = Some s"
  shows "(\<forall>err. main s = MRead \<and> fst (ReadHeader (cc s)) = Inl err \<longrightarrow>
            err = read_fail c \<and>
            step Main s = Some (s\<lparr>main := MWait, trace := trace s @
              (if err = EOF \<or> err = ErrUnexpectedEOF then [] else [LogReadHeaderError err])\<rparr>)) \<and>
         logged_header_errors (trace s) =
           (if main s = MRead \<or> read_fail c = EOF \<or> read_fail c = ErrUnexpectedEOF
            then [] else [read_fail c]) \<and>
         (\<exists>sched' s'. exec sched' s = Some s' \<and> main s' = MReturned \<and>
            last (trace s') = CodecClose) \<and>
         (\<forall>sched' s'. exec sched' s = Some s' \<longrightarrow>
            int (length sched + length sched') \<le> 10 * int (length (incoming c)) + 3 \<and>
            (main s' \<noteq> MReturned \<longrightarrow> (\<exists>t. step t s' \<noteq> None)) \<and>
            (main s' = MReturned \<longrightarrow> last (trace s') = CodecClose)) \<and>
         (main s = MWait \<and> \<not> list_all (\<lambda>t. t_pc t = HFinished) (tasks s) \<longrightarrow>
            step Main s = None) \<and>
         (main s \<noteq> MRead \<longrightarrow>
            map (\<lambda>t. req_h (t_req t)) (tasks s) = map fst (incoming c)) \<and>
         (\<forall>sched' s'. exec sched' s = Some s' \<and> main s' = MReturned \<longrightarrow>
            list_all (\<lambda>t. t_pc t = HFinished) (tasks s') \<and>
            map (\<lambda>t. req_h (t_req t)) (tasks s') = map fst (incoming c) \<and>
            mset (responses (trace s')) = mset (map expected (incoming c)) \<and>
            mset (responses (butlast (trace s'))) = mset (map expected (incoming c)) \<and>
            write_calls False (trace s') = Some False)"
proof -
  from assms have inv: "reach_inv c s" by (rule reachable)
  then have d: "codec_inv c s" by (simp add: reach_inv_def)
  have 1: "err = read_fail c \<and>
           step Main s = Some (s\<lparr>main := MWait, trace := trace s @
              (if err = EOF \<or> err = ErrUnexpectedEOF then [] else [LogReadHeaderError err])\<rparr>)"
    if "main s = MRead" "fst (ReadHeader (cc s)) = Inl err" for err
  proof -
    from that(2) have nil: "incoming (cc s) = []" and e: "err = read_fail (cc s)"
      by (auto simp: ReadHeader_def split: list.splits)
    from d e have "err = read_fail c" by (simp add: codec_inv_def)
    with serveCodec_step_MRead_Nil[OF that(1) nil] e show ?thesis by simp
  qed
  from d have 2: "logged_header_errors (trace s) =
           (if main s = MRead \<or> read_fail c = EOF \<or> read_fail c = ErrUnexpectedEOF
            then [] else [read_fail c])"
    by (simp add: codec_inv_def eof_class_def)
  have 3: "\<exists>sched' s'. exec sched' s = Some s' \<and> main s' = MReturned \<and>
            last (trace s') = CodecClose"
  proof -
    from can_finish[OF inv] obtain sched' s' where
      e: "exec sched' s = Some s'" and m: "main s' = MReturned" by blast
    from inv e have "reach_inv c s'" by (rule reach_inv_exec)
    from returned_trace(2)[OF this m] e m show ?thesis by blast
  qed
  have 4: "int (length sched + length sched') \<le> 10 * int (length (incoming c)) + 3 \<and>
            (main s' \<noteq> MReturned \<longrightarrow> (\<exists>t. step t s' \<noteq> None)) \<and>
            (main s' = MReturned \<longrightarrow> last (trace s') = CodecClose)"
    if "exec sched' s = Some s'" for sched' s'
  proof -
    from assms that have e: "exec (sched @ sched') (serveCodec_init c) = Some s'"
      by (simp add: exec_append)
    then have inv': "reach_inv c s'" by (rule reachable)
    from exec_length[OF e] reach_progress[OF inv'] returned_trace(2)[OF inv']
    show ?thesis by simp
  qed
  have 5: "step Main s = None"
    if "main s = MWait" "\<not> list_all (\<lambda>t. t_pc t = HFinished) (tasks s)"
    using inv that by (rule wait_blocks)
  have 6: "map (\<lambda>t. req_h (t_req t)) (tasks s) = map fst (incoming c)" if "main s \<noteq> MRead"
    using inv that by (rule joined_tasks)
  have 7: "list_all (\<lambda>t. t_pc t = HFinished) (tasks s') \<and>
           map (\<lambda>t. req_h (t_req t)) (tasks s') = map fst (incoming c) \<and>
           mset (responses (trace s')) = mset (map expected (incoming c)) \<and>
           mset (responses (butlast (trace s'))) = mset (map expected (incoming c)) \<and>
           write_calls False (trace s') = Some False"
    if "exec sched' s = Some s'" "main s' = MReturned" for sched' s'
  proof -
    from inv that(1) have inv': "reach_inv c s'" by (rule reach_inv_exec)
    then have w: "wg_inv s'" by (simp add: reach_inv_def)
    from that(2) have j: "main s' = MClose \<or> main s' = MReturned" and nr: "main s' \<noteq> MRead"
      by simp_all
    from returned_trace(1,2)[OF inv' that(2)]
    have "trace s' = butlast (trace s') @ [CodecClose]"
      using append_butlast_last_id by metis
    then have "responses (trace s') = responses (butlast (trace s') @ [CodecClose])"
      by simp
    then have b: "responses (butlast (trace s')) = responses (trace s')"
      by simp
    from all_finished[OF w j] joined_tasks[OF inv' nr] joined_resp[OF inv' j]
      joined_calls[OF inv' j] b
    show ?thesis by simp
  qed
  show ?thesis
    apply (intro conjI)
    subgoal using 1 by simp
    subgoal by (rule 2)
    subgoal by (rule 3)
    subgoal using 4 by simp
    subgoal using 5 by simp
    subgoal using 6 by simp
    subgoal by (intro allI impI, elim conjE, rule 7, assumption+)
    done
qed

text \<open>
  A stream that breaks at once with an error outside the end-of-stream class, and one
  that ends at once.  Then a stream that breaks after one request, while the handler of
  that request is in flight: \<^verbatim>\<open>serveCodec\<close> waits, the handler writes its response, and
  only then is the codec closed.
\<close>

theorem header_read_failure_ends_loop_witness:
  "fst (ReadHeader (cc (serveCodec_init (no_request (OtherError ''connection reset''))))) =
     Inl (OtherError ''connection reset'') \<and>
   map_option (\<lambda>s. (main s, trace s))
     (step Main (serveCodec_init (no_request (OtherError ''connection reset'')))) =
     Some (MWait, [LogReadHeaderError (OtherError ''connection reset'')]) \<and>
   fst (ReadHeader (cc (serveCodec_init (no_request EOF)))) = Inl EOF \<and>
   map_option (\<lambda>s. (main s, trace s)) (step Main (serveCodec_init (no_request EOF))) =
     Some (MWait, []) \<and>
   (\<exists>s. exec (take 3 in_flight)
           (serveCodec_init (one_request \<lparr>ServiceMethod = ''Foo.Bar'', Seq = 1, Error = ''''\<rparr>
              ''x'' None (OtherError ''connection reset''))) = Some s \<and>
        main s = MWait \<and> map t_pc (tasks s) = [HSend AtLock] \<and> step Main s = None \<and>
        (\<exists>s'. exec (drop 3 in_flight) s = Some s' \<and> main s' = MReturned \<and>
           trace s' =
             [LogRequest \<lparr>ServiceMethod = ''Foo.Bar'', Seq = 1, Error = ''''\<rparr> ''x'',
              LogReadHeaderError (OtherError ''connection reset''),
              WriteBegin \<lparr>ServiceMethod = ''Foo.Bar'', Seq = 1, Error = ''''\<rparr>
                (Reply ''geerpc resp 1''),
              WriteEnd None, CodecClose] \<and>
           mset (responses (butlast (trace s'))) =
             mset (map expected (incoming (one_request
               \<lparr>ServiceMethod = ''Foo.Bar'', Seq = 1, Error = ''''\<rparr>
               ''x'' None (OtherError ''connection reset''))))))"
proof -
  let ?s = "serveCodec_init (no_request (OtherError ''connection reset''))"
  let ?s' = "serveCodec_init (no_request EOF)"
  have e: "exec [] ?s = Some ?s" and e': "exec [] ?s' = Some ?s'" by simp_all
  have m: "main ?s = MRead" and m': "main ?s' = MRead" by (simp_all add: serveCodec_init_def)
  have r: "fst (ReadHeader (cc ?s)) = Inl (OtherError ''connection reset'')"
    and r': "fst (ReadHeader (cc ?s')) = Inl EOF"
    by (simp_all add: serveCodec_init_def no_request_def ReadHeader_def)
  from header_read_failure_ends_loop[OF e, THEN conjunct1, rule_format,
      of "OtherError ''connection reset''"] m r
  have "step Main ?s = Some (?s\<lparr>main := MWait, trace := trace ?s @
          [LogReadHeaderError (OtherError ''connection reset'')]\<rparr>)"
    by simp
  then have 1: "map_option (\<lambda>s. (main s, trace s)) (step Main ?s) =
     Some (MWait, [LogReadHeaderError (OtherError ''connection reset'')])"
    by (simp add: serveCodec_init_def)
  from header_read_failure_ends_loop[OF e', THEN conjunct1, rule_format, of EOF] m' r'
  have "step Main ?s' = Some (?s'\<lparr>main := MWait, trace := trace ?s' @ []\<rparr>)"
    by simp
  then have 2: "map_option (\<lambda>s. (main s, trace s)) (step Main ?s') = Some (MWait, [])"
    by (simp add: serveCodec_init_def)
  let ?h = "\<lparr>ServiceMethod = ''Foo.Bar'', Seq = 1, Error = ''''\<rparr>"
  let ?c = "one_request ?h ''x'' None (OtherError ''connection reset'')"
  let ?tr = "[LogRequest ?h ''x'', LogReadHeaderError (OtherError ''connection reset''),
              WriteBegin ?h (Reply ''geerpc resp 1''), WriteEnd None, CodecClose]"
  have "map_option (\<lambda>s. (main s, map t_pc (tasks s),
            map_option (\<lambda>s'. (main s', trace s')) (exec (drop 3 in_flight) s)))
          (exec (take 3 in_flight) (serveCodec_init ?c))
        = Some (MWait, [HSend AtLock], Some (MReturned, ?tr))"
    by (simp add: model_defs in_flight_def one_request_def writes_succeed_def
        geerpc_resp_def decimal.simps digit_def)
  then obtain s3 s' where s3: "exec (take 3 in_flight) (serveCodec_init ?c) = Some s3"
    and m3: "main s3 = MWait" and t3: "map t_pc (tasks s3) = [HSend AtLock]"
    and e3: "exec (drop 3 in_flight) s3 = Some s'" and mr: "main s' = MReturned"
    and tr: "trace s' = ?tr"
    by auto
  note h = header_read_failure_ends_loop[OF s3]
  have "\<not> list_all (\<lambda>t. t_pc t = HFinished) (tasks s3)"
  proof
    assume "list_all (\<lambda>t. t_pc t = HFinished) (tasks s3)"
    then have "list_all (\<lambda>p. p = HFinished) (map t_pc (tasks s3))"
      by (simp add: list_all_iff)
    with t3 show False by simp
  qed
  with h[THEN conjunct2, THEN conjunct2, THEN conjunct2, THEN conjunct2, THEN conjunct1] m3
  have b3: "step Main s3 = None" by simp
  from h[THEN conjunct2, THEN conjunct2, THEN conjunct2, THEN conjunct2, THEN conjunct2,
      THEN conjunct2, rule_format, of "drop 3 in_flight" s'] e3 mr
  have w: "mset (responses (butlast (trace s'))) = mset (map expected (incoming ?c))"
    by simp
  from e3 mr tr w have "\<exists>s'. exec (drop 3 in_flight) s3 = Some s' \<and> main s' = MReturned \<and>
      trace s' = ?tr \<and>
      mset (responses (butlast (trace s'))) = mset (map expected (incoming ?c))"
    by (intro exI[of _ s']) simp
  with s3 m3 t3 b3 have 3: "\<exists>s. exec (take 3 in_flight) (serveCodec_init ?c) = Some s \<and>
        main s = MWait \<and> map t_pc (tasks s) = [HSend AtLock] \<and> step Main s = None \<and>
        (\<exists>s'. exec (drop 3 in_flight) s = Some s' \<and> main s' = MReturned \<and>
           trace s' = ?tr \<and>
           mset (responses (butlast (trace s'))) = mset (map expected (incoming ?c)))"
    by (intro exI[of _ s3]) simp
  show ?thesis
    by (intro conjI) (fact r, fact 1, fact r', fact 2, fact 3)
qed

subsection \<open>C6: response writes are mutually exclusive\<close>

text \<open>
  C6.  In every reachable state, under any interleaving: a handler that stands anywhere
  between the return of \<^verbatim>\<open>sending.Lock()\<close> and the return of \<^verbatim>\<open>sending.Unlock()\<close>, so in
  particular one that is inside \<^verbatim>\<open>cc.Write\<close>, has the mutex locked, and there is at most
  one such handler; \<^verbatim>\<open>serveCodec\<close> itself is never inside \<^verbatim>\<open>sendResponse\<close>.  Hence the
  calls of \<^verbatim>\<open>cc.Write\<close> never overlap in the trace: each call returns before the next one
  starts, so whatever bytes a codec emits during one call are not interleaved with those
  of another.
\<close>

theorem sendResponse_mutual_exclusion:
  assumes "exec sched (serveCodec_init c) = Some s"
  shows "(\<forall>i<length (tasks s). holds_mutex (tasks s ! i) \<longrightarrow> sending s) \<and>
         (\<forall>i<length (tasks s). \<forall>j<length (tasks s).
            holds_mutex (tasks s ! i) \<and> holds_mutex (tasks s ! j) \<longrightarrow> i = j) \<and>
         (\<forall>i<length (tasks s). t_pc (tasks s ! i) = HSend InWrite \<longrightarrow> holds_mutex (tasks s ! i)) \<and>
         (\<forall>r p. main s \<noteq> MSend r p) \<and>
         write_calls False (trace s) \<noteq> None"
proof -
  from assms have inv: "reach_inv c s" by (rule reachable)
  then have l: "live_main s" and k: "lock_inv s" and a: "calls_inv s"
    by (simp_all add: reach_inv_def)
  have 1: "sending s" if "i < length (tasks s)" "holds_mutex (tasks s ! i)" for i
    using holder_sending[OF k that(1)] that(2) by (simp add: task_holds_def)
  have 2: "i = j" if "i < length (tasks s)" "j < length (tasks s)"
    "holds_mutex (tasks s ! i)" "holds_mutex (tasks s ! j)" for i j
    using holders_unique[OF k that(1,2)] that(3,4) by (simp add: task_holds_def)
  have 3: "holds_mutex (tasks s ! i)" if "t_pc (tasks s ! i) = HSend InWrite" for i
    using that by (simp add: holds_mutex_def)
  from l have 4: "main s \<noteq> MSend r p" for r p
    by (auto simp: live_main_def)
  from a have 5: "write_calls False (trace s) \<noteq> None"
    by (simp add: calls_inv_def)
  show ?thesis
    by (intro conjI allI impI) (use 1 2 3 4 5 in simp_all)
qed

text \<open>The two-request run stopped while the second handler is inside \<^verbatim>\<open>cc.Write\<close> and
  the first one waits at \<^verbatim>\<open>sending.Lock()\<close>, where it cannot step.\<close>

theorem sendResponse_mutual_exclusion_witness:
  "\<exists>s. exec (take 6 interleaved) (serveCodec_init (two_requests writes_succeed)) = Some s \<and>
        map t_pc (tasks s) = [HSend AtLock, HSend InWrite] \<and>
        holds_mutex (tasks s ! 1) \<and> \<not> holds_mutex (tasks s ! 0) \<and> sending s \<and>
        step (Task 0) s = None \<and> write_calls False (trace s) = Some True"
proof -
  have "map_option (\<lambda>s. (map t_pc (tasks s), write_calls False (trace s)))
          (exec (take 6 interleaved) (serveCodec_init (two_requests writes_succeed)))
        = Some ([HSend AtLock, HSend InWrite], Some True)"
    by (simp add: model_defs interleaved_def two_requests_def writes_succeed_def)
  then obtain s where
    s: "exec (take 6 interleaved) (serveCodec_init (two_requests writes_succeed)) = Some s"
    and t: "map t_pc (tasks s) = [HSend AtLock, HSend InWrite]"
    and w: "write_calls False (trace s) = Some True"
    by auto
  from t have len: "length (tasks s) = 2" and t0: "t_pc (tasks s ! 0) = HSend AtLock"
    and t1: "t_pc (tasks s ! 1) = HSend InWrite"
    using map_eq_imp_length_eq[of t_pc "tasks s" id "[HSend AtLock, HSend InWrite]"]
      nth_map[of 0 "tasks s" t_pc] nth_map[of 1 "tasks s" t_pc]
    by simp_all
  from sendResponse_mutual_exclusion[OF s] len t1
  have h1: "holds_mutex (tasks s ! 1)" by simp
  with sendResponse_mutual_exclusion[OF s, THEN conjunct1, rule_format, of 1] len
  have snd: "sending s" by simp
  from t0 have h0: "\<not> holds_mutex (tasks s ! 0)" by (simp add: holds_mutex_def)
  from t0 snd len have st: "step (Task 0) s = None"
    by (simp add: handleRequest_step_def sendResponse_step_def split: option.splits)
  show ?thesis
    by (intro exI[of _ s]) (use s t w h1 h0 snd st in simp)
qed

subsection \<open>C7: the stub reply is built from the sequence number\<close>

text \<open>
  C7, as amended.  For every response \<open>(hdr, b)\<close> that is handed to \<^verbatim>\<open>cc.Write\<close> in a
  reachable state: \<open>b\<close> is the string \<^verbatim>\<open>geerpc resp\<close>, a space, and the decimal digits of
  \<open>Seq hdr\<close>; any response whose header has another sequence number has another body; and
  \<open>hdr\<close> is the header of one of the requests exactly as it was read, so that its
  \<^verbatim>\<open>Error\<close> field is the one the request carried: empty when every request header has an
  empty \<^verbatim>\<open>Error\<close>.  The handler never assigns the field.
\<close>

theorem stub_reply_from_sequence:
  assumes "exec sched (serveCodec_init c) = Some s"
    and "(hdr, b) \<in> set (responses (trace s))"
  shows "b = Reply (''geerpc resp '' @ decimal (unat (Seq hdr))) \<and>
         (\<forall>hdr' b'. (hdr', b') \<in> set (responses (trace s)) \<and> Seq hdr' \<noteq> Seq hdr \<longrightarrow> b' \<noteq> b) \<and>
         hdr \<in> fst ` set (incoming c) \<and>
         ((\<forall>f \<in> set (incoming c). Error (fst f) = '''') \<longrightarrow> Error hdr = '''')"
proof -
  from assms(1) have inv: "reach_inv c s" by (rule reachable)
  have shape: "b' = Reply (geerpc_resp (Seq hdr')) \<and> hdr' \<in> fst ` set (incoming c)"
    if "(hdr', b') \<in> set (responses (trace s))" for hdr' b'
    using response_is_expected[OF inv that] by (auto simp: expected_def)
  from shape[OF assms(2)] have 1: "b = Reply (''geerpc resp '' @ decimal (unat (Seq hdr)))"
    and 3: "hdr \<in> fst ` set (incoming c)"
    by (simp_all add: geerpc_resp_def)
  have 2: "b' \<noteq> b" if "(hdr', b') \<in> set (responses (trace s))" "Seq hdr' \<noteq> Seq hdr" for hdr' b'
    using shape[OF that(1)] shape[OF assms(2)] that(2) geerpc_resp_inj by auto
  from 3 have 4: "Error hdr = ''''" if "\<forall>f \<in> set (incoming c). Error (fst f) = ''''"
    using that by auto
  show ?thesis
    by (intro conjI allI impI) (use 1 2 3 4 in auto)
qed

text \<open>The response to the request with sequence number 2 in the two-request run.\<close>

theorem stub_reply_from_sequence_witness:
  "\<exists>s. exec interleaved (serveCodec_init (two_requests writes_succeed)) = Some s \<and>
        (\<lparr>ServiceMethod = ''Foo.Bar'', Seq = 2, Error = ''''\<rparr>, Reply ''geerpc resp 2'')
          \<in> set (responses (trace s)) \<and>
        Reply ''geerpc resp 2'' = Reply (''geerpc resp '' @ decimal (unat (2 :: 64 word))) \<and>
        Error \<lparr>ServiceMethod = ''Foo.Bar'', Seq = 2, Error = ''''\<rparr> = ''''"
proof -
  let ?h = "\<lparr>ServiceMethod = ''Foo.Bar'', Seq = 2, Error = ''''\<rparr>"
  from two_requests_run obtain s where
    s: "exec interleaved (serveCodec_init (two_requests writes_succeed)) = Some s"
    and r: "trace s = two_requests_trace"
    by auto
  from r have m: "(?h, Reply ''geerpc resp 2'') \<in> set (responses (trace s))"
    by (simp add: two_requests_trace_def)
  from stub_reply_from_sequence[OF s m]
  have "Reply ''geerpc resp 2'' = Reply (''geerpc resp '' @ decimal (unat (Seq ?h)))"
    by simp
  with s m show ?thesis
    by (intro exI[of _ s]) simp
qed

text \<open>Against C7 as the specification states it: a request whose header carries the error
  string \<^verbatim>\<open>boom\<close> is dispatched and answered with that same string in the response
  header.\<close>

theorem response_error_echoed_counterexample:
  "map_option response_errors
     (serveCodec_trace [Main, Task 0, Task 0, Task 0]
        (one_request \<lparr>ServiceMethod = ''Foo.Bar'', Seq = 7, Error = ''boom''\<rparr> ''x'' None EOF))
   = Some [''boom'']"
  by (simp add: serveCodec_trace_def model_defs one_request_def writes_succeed_def
      response_errors_def)

subsection \<open>C8: a failed write is logged and the connection goes on\<close>



subsection \<open>C9: the inline error response of the loop is unreachable\<close>

text \<open>
  C9, as amended.  \<^verbatim>\<open>readRequest\<close> returns a non-nil error only together with a nil
  request; when the body fails to decode it logs the error and returns the request with
  a nil error.  So, in every reachable state, \<^verbatim>\<open>serveCodec\<close> is never in its error branch
  and has not crashed, no response carries the placeholder \<^verbatim>\<open>invalidRequest\<close>, and every
  response header is the header of a request exactly as it was read: the server never
  assigns \<^verbatim>\<open>Error\<close>, so the field is empty when every request header has it empty.
\<close>

theorem error_branch_unreachable:
  "(\<forall>c0 req err c1 lg. readRequest c0 = ((req, err), c1, lg) \<and> err \<noteq> None \<longrightarrow> req = None) \<and>
   (\<forall>c0 hdr a err fs. incoming c0 = (hdr, a, Some err) # fs \<longrightarrow>
      readRequest c0 = ((Some \<lparr>req_h = hdr, argv = a, replyv = None\<rparr>, None),
                        c0\<lparr>incoming := fs, cur_body := (a, Some err)\<rparr>, [LogReadArgvErr err])) \<and>
   (\<forall>sched c s. exec sched (serveCodec_init c) = Some s \<longrightarrow>
      (\<forall>r p. main s \<noteq> MSend r p) \<and> main s \<noteq> MPanic \<and>
      (\<forall>hdr b. (hdr, b) \<in> set (responses (trace s)) \<longrightarrow>
         b \<noteq> invalidRequest \<and> hdr \<in> fst ` set (incoming c)) \<and>
      ((\<forall>f \<in> set (incoming c). Error (fst f) = '''') \<longrightarrow>
         (\<forall>e \<in> set (response_errors (trace s)). e = '''')))"
proof -
  have 1: "req = None" if "readRequest c0 = ((req, err), c1, lg)" "err \<noteq> None"
    for c0 req err c1 lg
    using that
    by (cases "incoming c0"; cases "hd (incoming c0)")
       (auto simp: readRequest_Nil readRequest_Cons)
  have 2: "readRequest c0 = ((Some \<lparr>req_h = hdr, argv = a, replyv = None\<rparr>, None),
                        c0\<lparr>incoming := fs, cur_body := (a, Some err)\<rparr>, [LogReadArgvErr err])"
    if "incoming c0 = (hdr, a, Some err) # fs" for c0 hdr a err fs
    using readRequest_Cons[OF that] by simp
  have 3: "(\<forall>r p. main s \<noteq> MSend r p) \<and> main s \<noteq> MPanic \<and>
      (\<forall>hdr b. (hdr, b) \<in> set (responses (trace s)) \<longrightarrow>
         b \<noteq> invalidRequest \<and> hdr \<in> fst ` set (incoming c)) \<and>
      ((\<forall>f \<in> set (incoming c). Error (fst f) = '''') \<longrightarrow>
         (\<forall>e \<in> set (response_errors (trace s)). e = ''''))"
    if "exec sched (serveCodec_init c) = Some s" for sched c s
  proof -
    from that have inv: "reach_inv c s" by (rule reachable)
    then have a: "(\<forall>r p. main s \<noteq> MSend r p) \<and> main s \<noteq> MPanic"
      by (auto simp: reach_inv_def live_main_def)
    have b: "b \<noteq> invalidRequest \<and> hdr \<in> fst ` set (incoming c)"
      if "(hdr, b) \<in> set (responses (trace s))" for hdr b
      using response_is_expected[OF inv that] by (auto simp: expected_def)
    have d: "e = ''''" if "\<forall>f \<in> set (incoming c). Error (fst f) = ''''"
      "e \<in> set (response_errors (trace s))" for e
    proof -
      from that(2) obtain hdr b where "(hdr, b) \<in> set (responses (trace s))" "e = Error hdr"
        by (auto simp: response_errors_def)
      with b[of hdr b] that(1) show ?thesis by auto
    qed
    from a b d show ?thesis by blast
  qed
  show ?thesis
    by (intro conjI allI impI) (use 1 2 3 in \<open>auto simp del: fun_upd_apply\<close>)
qed

text \<open>A frame whose body fails to decode, and a stream at its end.\<close>

theorem error_branch_unreachable_witness:
  "fst (readRequest (one_request \<lparr>ServiceMethod = ''Foo.Bar'', Seq = 1, Error = ''''\<rparr> ''''
          (Some (OtherError ''decode failed'')) EOF))
     = (Some \<lparr>req_h = \<lparr>ServiceMethod = ''Foo.Bar'', Seq = 1, Error = ''''\<rparr>, argv = '''',
               replyv = None\<rparr>, None) \<and>
   fst (readRequest (no_request EOF)) = (None, Some EOF) \<and>
   (\<exists>s. exec run_one (serveCodec_init (one_request
            \<lparr>ServiceMethod = ''Foo.Bar'', Seq = 1, Error = ''''\<rparr> ''''
            (Some (OtherError ''decode failed'')) EOF)) = Some s \<and>
        main s = MReturned \<and> length (responses (trace s)) = 1 \<and>
        invalidRequest \<notin> snd ` set (responses (trace s)))"
proof -
  let ?h = "\<lparr>ServiceMethod = ''Foo.Bar'', Seq = 1, Error = ''''\<rparr>"
  let ?c = "one_request ?h '''' (Some (OtherError ''decode failed'')) EOF"
  note unreach = error_branch_unreachable
  have i: "incoming ?c = (?h, '''', Some (OtherError ''decode failed'')) # []"
    by (simp add: one_request_def)
  from unreach[THEN conjunct2, THEN conjunct1, rule_format, OF i]
  have 1: "fst (readRequest ?c) = (Some \<lparr>req_h = ?h, argv = '''', replyv = None\<rparr>, None)"
    by simp
  have 2: "fst (readRequest (no_request EOF)) = (None, Some EOF)"
    by (simp add: readRequest_Nil no_request_def)
  have "map_option (\<lambda>s. (main s, length (responses (trace s)))) (exec run_one (serveCodec_init ?c))
        = Some (MReturned, 1)"
    by (simp add: model_defs run_one_def one_request_def writes_succeed_def)
  then obtain s where s: "exec run_one (serveCodec_init ?c) = Some s"
    and m: "main s = MReturned" and n: "length (responses (trace s)) = 1"
    by auto
  note u = unreach[THEN conjunct2, THEN conjunct2, THEN spec, THEN spec, THEN spec, THEN mp,
      OF s, THEN conjunct2, THEN conjunct2, THEN conjunct1, rule_format]
  have "invalidRequest \<notin> snd ` set (responses (trace s))"
  proof
    assume "invalidRequest \<in> snd ` set (responses (trace s))"
    then obtain hdr where "(hdr, invalidRequest) \<in> set (responses (trace s))" by force
    from u[OF this] show False by simp
  qed
  with s m n have 3: "\<exists>s. exec run_one (serveCodec_init ?c) = Some s \<and>
        main s = MReturned \<and> length (responses (trace s)) = 1 \<and>
        invalidRequest \<notin> snd ` set (responses (trace s))"
    by (intro exI[of _ s]) simp
  from 1 2 3 show ?thesis by simp
qed

text \<open>Against C9 as it was first stated: the whole of \<^verbatim>\<open>ServeConn\<close> on a connection
  whose only request carries the error string \<^verbatim>\<open>boom\<close> in its header writes a response
  header whose \<^verbatim>\<open>Error\<close> field is not empty.\<close>

theorem response_error_not_always_empty_counterexample:
  "map_option response_errors
     (ServeConn
        (test_env (Inr DefaultOption)
           (one_request \<lparr>ServiceMethod = ''Foo.Bar'', Seq = 7, Error = ''boom''\<rparr> ''x'' None EOF))
        () run_one)
   = Some [''boom'']"
  by (simp add: ServeConn_def ServeConn_handshake_def defer_conn_Close_def test_env_def
      init_NewCodecFuncMap_def DefaultOption_def GobType_def MagicNumber_def
      model_defs run_one_def one_request_def writes_succeed_def response_errors_def)

subsection \<open>C10: every return of ServeConn closes the connection\<close>

text \<open>
  C10.  On every connection \<^verbatim>\<open>ServeConn\<close> can return, and whenever it returns the close
  of the connection is the last event of its trace and occurs once.  This holds on each
  path: when the option record does not decode, when the magic number is wrong, when the
  codec type has no constructor (the trace is then one log line and the close), and
  when \<^verbatim>\<open>serveCodec\<close> ran, where the close of the connection directly follows the close
  of the codec.
\<close>

theorem ServeConn_always_closes_conn:
  "(\<exists>sched' tr. ServeConn e conn sched' = Some tr) \<and>
   (\<forall>tr. ServeConn e conn sched = Some tr \<longrightarrow>
      tr \<noteq> [] \<and> last tr = ConnClose \<and> ConnClose \<notin> set (butlast tr)) \<and>
   (\<forall>err. json_Decode e conn = Inl err \<longrightarrow>
      ServeConn e conn sched = Some [LogOptionsError err, ConnClose]) \<and>
   (\<forall>opt. json_Decode e conn = Inr opt \<and> opt_MagicNumber opt \<noteq> MagicNumber \<longrightarrow>
      ServeConn e conn sched = Some [LogInvalidMagic (opt_MagicNumber opt), ConnClose]) \<and>
   (\<forall>opt. json_Decode e conn = Inr opt \<and> opt_MagicNumber opt = MagicNumber \<and>
          NewCodecFuncMap e (opt_CodecType opt) = None \<longrightarrow>
      ServeConn e conn sched = Some [LogInvalidCodec (opt_CodecType opt), ConnClose]) \<and>
   (\<forall>c tr. snd (ServeConn_handshake e conn) = Some c \<and> ServeConn e conn sched = Some tr \<longrightarrow>
      after_close tr = [ConnClose])"
proof -
  have 3: "ServeConn e conn sched = Some [LogOptionsError err, ConnClose]"
    if "json_Decode e conn = Inl err" for err sched
    using that by (simp add: ServeConn_def ServeConn_handshake_def defer_conn_Close_def)
  have 4: "ServeConn e conn sched = Some [LogInvalidMagic (opt_MagicNumber opt), ConnClose]"
    if "json_Decode e conn = Inr opt" "opt_MagicNumber opt \<noteq> MagicNumber" for opt sched
    using that by (simp add: ServeConn_def ServeConn_handshake_def defer_conn_Close_def)
  have 5: "ServeConn e conn sched = Some [LogInvalidCodec (opt_CodecType opt), ConnClose]"
    if "json_Decode e conn = Inr opt" "opt_MagicNumber opt = MagicNumber"
      "NewCodecFuncMap e (opt_CodecType opt) = None" for opt sched
    using that by (simp add: ServeConn_def ServeConn_handshake_def defer_conn_Close_def)
  have served: "tr \<noteq> [] \<and> last tr = ConnClose \<and> ConnClose \<notin> set (butlast tr) \<and>
        after_close tr = [ConnClose]"
    if h: "ServeConn_handshake e conn = (lg, Some c)" and r: "ServeConn e conn sched = Some tr"
    for lg c sched tr
  proof -
    from h r obtain s where s: "exec sched (serveCodec_init c) = Some s"
      and m: "main s = MReturned" and tr: "tr = trace s @ [ConnClose]"
      by (rule ServeConn_returns)
    from s have inv: "reach_inv c s" by (rule reachable)
    then have "ConnClose \<notin> set (trace s)" by (simp add: reach_inv_def close_inv_def)
    with tr after_close_last[OF returned_trace[OF inv m], of "[ConnClose]"] show ?thesis
      by simp
  qed
  have failed: "\<exists>ev. ev \<noteq> ConnClose \<and> (\<forall>sched. ServeConn e conn sched = Some [ev, ConnClose])"
    if h: "snd (ServeConn_handshake e conn) = None"
  proof (cases "json_Decode e conn")
    case (Inl err)
    from 3[OF this] show ?thesis by blast
  next
    case (Inr opt)
    show ?thesis
    proof (cases "opt_MagicNumber opt = MagicNumber")
      case False
      from 4[OF Inr this] show ?thesis by blast
    next
      case True
      with h Inr have "NewCodecFuncMap e (opt_CodecType opt) = None"
        by (simp add: ServeConn_handshake_def split: option.splits)
      from 5[OF Inr True this] show ?thesis by blast
    qed
  qed
  have 1: "\<exists>sched' tr. ServeConn e conn sched' = Some tr"
  proof (cases "snd (ServeConn_handshake e conn)")
    case None
    from failed[OF this] show ?thesis by blast
  next
    case (Some c)
    then have h: "ServeConn_handshake e conn = (fst (ServeConn_handshake e conn), Some c)"
      by (simp add: prod_eq_iff)
    from can_finish[OF reach_inv_init[of c]] obtain sched' s where
      "exec sched' (serveCodec_init c) = Some s" "main s = MReturned" by blast
    then have "ServeConn e conn sched' = Some (trace s @ [ConnClose])"
      by (simp add: ServeConn_serving(2)[OF h])
    then show ?thesis by blast
  qed
  have 2: "tr \<noteq> [] \<and> last tr = ConnClose \<and> ConnClose \<notin> set (butlast tr)"
    if r: "ServeConn e conn sched = Some tr" for tr
  proof (cases "snd (ServeConn_handshake e conn)")
    case None
    from failed[OF this] r show ?thesis by auto
  next
    case (Some c)
    then have h: "ServeConn_handshake e conn = (fst (ServeConn_handshake e conn), Some c)"
      by (simp add: prod_eq_iff)
    from served[OF h r] show ?thesis by simp
  qed
  have 6: "after_close tr = [ConnClose]"
    if "snd (ServeConn_handshake e conn) = Some c" "ServeConn e conn sched = Some tr" for c tr
  proof -
    from that(1) have h: "ServeConn_handshake e conn = (fst (ServeConn_handshake e conn), Some c)"
      by (simp add: prod_eq_iff)
    from served[OF h that(2)] show ?thesis by simp
  qed
  show ?thesis
    by (intro conjI allI impI) (use 1 2 3 4 5 6 in \<open>auto simp del: fun_upd_apply\<close>)
qed

text \<open>An option record that does not decode, and the two-request run.\<close>

theorem ServeConn_always_closes_conn_witness:
  "ServeConn (test_env (Inl (OtherError ''invalid character'')) (no_request EOF)) () []
     = Some [LogOptionsError (OtherError ''invalid character''), ConnClose] \<and>
   ServeConn (test_env (Inr DefaultOption) (two_requests writes_succeed)) () interleaved
     = Some (two_requests_trace @ [ConnClose]) \<and>
   last (two_requests_trace @ [ConnClose]) = ConnClose \<and>
   after_close (two_requests_trace @ [ConnClose]) = [ConnClose]"
proof -
  let ?e1 = "test_env (Inl (OtherError ''invalid character'')) (no_request EOF)"
  let ?e2 = "test_env (Inr DefaultOption) (two_requests writes_succeed)"
  have d: "json_Decode ?e1 () = Inl (OtherError ''invalid character'')"
    by (simp add: test_env_def)
  from ServeConn_always_closes_conn[of ?e1 "()" "[]", THEN conjunct2, THEN conjunct2,
      THEN conjunct1, rule_format, OF d]
  have 1: "ServeConn ?e1 () [] = Some [LogOptionsError (OtherError ''invalid character''), ConnClose]" .
  have h: "ServeConn_handshake ?e2 () = ([], Some (two_requests writes_succeed))"
    by (simp add: ServeConn_handshake_def test_env_def init_NewCodecFuncMap_def
        DefaultOption_def)
  from two_requests_run obtain s where
    "exec interleaved (serveCodec_init (two_requests writes_succeed)) = Some s"
    "main s = MReturned" "trace s = two_requests_trace"
    by auto
  then have run: "ServeConn ?e2 () interleaved = Some (two_requests_trace @ [ConnClose])"
    by (simp add: ServeConn_serving(2)[OF h])
  from ServeConn_always_closes_conn[of ?e2 "()" interleaved, THEN conjunct2, THEN conjunct1,
      rule_format, OF run]
  have 2: "last (two_requests_trace @ [ConnClose]) = ConnClose" by simp
  from h have "snd (ServeConn_handshake ?e2 ()) = Some (two_requests writes_succeed)" by simp
  with ServeConn_always_closes_conn[of ?e2 "()" interleaved] run
  have 3: "after_close (two_requests_trace @ [ConnClose]) = [ConnClose]" by simp
  from 1 run 2 3 show ?thesis by simp
qed

end
